theory Spec2Isabelle
  imports Main "HOL-Library.Word"
begin

section \<open>Data model of main.c\<close>

text \<open>
  \<^verbatim>\<open>unsigned long\<close> (colours, X11 window ids) is a 64-bit word. The two \<^verbatim>\<open>int\<close>
  fields hold values that never leave the 32-bit range (the result of \<^verbatim>\<open>atoi\<close> on at
  most seven bytes, a watch descriptor handed out by the kernel) and no arithmetic is done
  on them, so they are mathematical integers.
\<close>

type_synonym ulong = "64 word"
type_synonym Window = ulong

record Attr =
  path :: string
  label :: string
  fg :: ulong
  bg_active :: ulong
  bg_inactive :: ulong
  state :: int
  wd :: int
  win :: Window

definition ICON_SZ :: nat where
  "ICON_SZ = 24"

text \<open>An X event as the loop looks at it: its type and the window it is addressed to.\<close>

datatype XEvent = XEvent (ev_type: int) (ev_window: Window)

definition Expose :: int where
  "Expose = 12"

text \<open>
  The calls the program makes to libc, the kernel and Xlib, in program order. The trace of
  a run is a list of them.
\<close>

datatype call =
    Fprintf_stderr string
  | Perror string
  | Open string
  | Read
  | Close
  | XOpenDisplay
  | XInternAtom string
  | XCreateSimpleWindow Window
  | XChangeProperty Window
  | XSelectInput Window
  | XMapWindow Window
  | XGetSelectionOwner
  | XSendEvent Window Window
  | XCreateGC Window
  | XSetForeground ulong
  | XFillRectangle Window int int nat nat
  | XDrawString Window int int string
  | XFreeGC
  | XSync
  | Inotify_init1
  | Inotify_add_watch string
  | Select
  | XNextEvent XEvent
  | Read_inotify

section \<open>The attribute source\<close>

text \<open>
  What \<^verbatim>\<open>open\<close> and \<^verbatim>\<open>read\<close> answer for a path: the open fails, the open succeeds and
  the read fails, or the read delivers the file's bytes (at most as many as asked for).
\<close>

datatype source = OpenFails | ReadFails | Content string

type_synonym filesys = "string \<Rightarrow> source"

subsection \<open>atoi\<close>

text \<open>
  \<^verbatim>\<open>atoi\<close> of the C library: skip white space, take an optional sign, then the longest
  run of decimal digits; no digits give 0.
\<close>

definition isspace :: "char \<Rightarrow> bool" where
  "isspace c = (c \<in> set [CHR 0x20, CHR 0x09, CHR 0x0A, CHR 0x0B, CHR 0x0C, CHR 0x0D])"

definition isdigit :: "char \<Rightarrow> bool" where
  "isdigit c = (48 \<le> (of_char c :: nat) \<and> (of_char c :: nat) \<le> 57)"

fun digits_val :: "nat \<Rightarrow> string \<Rightarrow> nat" where
  "digits_val acc [] = acc"
| "digits_val acc (c # cs) =
     (if isdigit c then digits_val (10 * acc + ((of_char c :: nat) - 48)) cs else acc)"

definition atoi :: "string \<Rightarrow> int" where
  "atoi s =
     (case dropWhile isspace s of
        [] \<Rightarrow> 0
      | c # cs \<Rightarrow>
          if c = CHR ''-'' then - int (digits_val 0 cs)
          else if c = CHR ''+'' then int (digits_val 0 cs)
          else int (digits_val 0 (c # cs)))"

text \<open>The buffer \<^verbatim>\<open>b\<close> as a C string: the bytes up to the first NUL.\<close>

definition c_str :: "string \<Rightarrow> string" where
  "c_str bs = takeWhile (\<lambda>c. c \<noteq> CHR 0x00) bs"

subsection \<open>read_bool\<close>

text \<open>
  \<^verbatim>\<open>char b[8] = {0}; fd = open(p); if (fd < 0) return -1;
  n = read(fd, b, sizeof b - 1); close(fd); return n > 0 ? atoi(b) : -1;\<close>
  The result is paired with the calls made.
\<close>

definition read_bool :: "filesys \<Rightarrow> string \<Rightarrow> int \<times> call list" where
  "read_bool fs p =
     (case fs p of
        OpenFails \<Rightarrow> (- 1, [Open p])
      | ReadFails \<Rightarrow> (- 1, [Open p, Read, Close])
      | Content bs \<Rightarrow>
          (let b = take 7 bs; n = int (length b)
           in (if n > 0 then atoi (c_str b) else - 1, [Open p, Read, Close])))"

section \<open>Drawing\<close>

definition draw_icon :: "Attr \<Rightarrow> call list" where
  "draw_icon a =
     [XCreateGC (win a),
      XSetForeground (if state a \<noteq> 0 then bg_active a else bg_inactive a),
      XFillRectangle (win a) 0 0 ICON_SZ ICON_SZ]
     @ (if state a \<noteq> 0
        then [XSetForeground (fg a), XDrawString (win a) 3 (int ICON_SZ - 8) (label a)]
        else [])
     @ [XFreeGC, XSync]"

section \<open>Windows and the tray\<close>

text \<open>
  \<^verbatim>\<open>dock_to_tray\<close>: \<open>tray\<close> is what the X server answers to \<^verbatim>\<open>XGetSelectionOwner\<close>
  for the tray selection of the screen (the call stands for the atom lookup and the owner
  query together); 0 is \<^verbatim>\<open>None\<close>, no tray. The client message carries the window.
\<close>

definition dock_to_tray :: "Window \<Rightarrow> Window \<Rightarrow> call list" where
  "dock_to_tray tray w =
     XGetSelectionOwner # (if tray = 0 then [] else [XSendEvent tray w])"

text \<open>\<^verbatim>\<open>create_window\<close>: \<open>w\<close> is the id the server returns from \<^verbatim>\<open>XCreateSimpleWindow\<close>.\<close>

definition create_window :: "Window \<Rightarrow> Window \<Rightarrow> Attr \<Rightarrow> Attr \<times> call list" where
  "create_window w tray a =
     (a\<lparr>win := w\<rparr>,
      [XCreateSimpleWindow w, XChangeProperty w, XSelectInput w, XMapWindow w]
      @ dock_to_tray tray w)"

section \<open>Dispatch\<close>

text \<open>
  The \<^verbatim>\<open>Expose\<close> branch: the first descriptor whose window is the event's is drawn,
  then \<^verbatim>\<open>break\<close>.
\<close>

fun expose_scan :: "Window \<Rightarrow> Attr list \<Rightarrow> call list" where
  "expose_scan w [] = []"
| "expose_scan w (a # as) = (if w = win a then draw_icon a else expose_scan w as)"

text \<open>
  \<^verbatim>\<open>while (XPending(dpy)) { XNextEvent(dpy, &ev); ... }\<close> over the events the server
  delivers until the queue is empty.
\<close>

fun x11_events :: "Attr list \<Rightarrow> XEvent list \<Rightarrow> call list" where
  "x11_events attrs [] = []"
| "x11_events attrs (ev # evs) =
     XNextEvent ev
     # (if ev_type ev = Expose then expose_scan (ev_window ev) attrs else [])
     @ x11_events attrs evs"

record inotify_event =
  ie_wd :: int
  ie_mask :: "32 word"

text \<open>
  One notification record: the first descriptor whose \<^verbatim>\<open>wd\<close> is the record's is re-read
  (\<open>fs\<close> is the file system at that moment), updated and drawn when
  \<^verbatim>\<open>v >= 0 && v != attrs[i].state\<close>, then \<^verbatim>\<open>break\<close>.
\<close>

fun notify_scan :: "filesys \<Rightarrow> int \<Rightarrow> Attr list \<Rightarrow> Attr list \<times> call list" where
  "notify_scan fs w [] = ([], [])"
| "notify_scan fs w (a # as) =
     (if wd a = w then
        (case read_bool fs (path a) of
           (v, rd) \<Rightarrow>
             if v \<ge> 0 \<and> v \<noteq> state a
             then (a\<lparr>state := v\<rparr> # as, rd @ draw_icon (a\<lparr>state := v\<rparr>))
             else (a # as, rd))
      else
        (case notify_scan fs w as of (as', out) \<Rightarrow> (a # as', out)))"

text \<open>The walk over the records of one batch.\<close>

fun inotify_records ::
  "Attr list \<Rightarrow> (inotify_event \<times> filesys) list \<Rightarrow> Attr list \<times> call list" where
  "inotify_records attrs [] = (attrs, [])"
| "inotify_records attrs (r # rs) =
     (case notify_scan (snd r) (ie_wd (fst r)) attrs of
        (attrs1, out1) \<Rightarrow>
          (case inotify_records attrs1 rs of
             (attrs2, out2) \<Rightarrow> (attrs2, out1 @ out2)))"

text \<open>
  \<^verbatim>\<open>len = read(ino_fd, buf, sizeof buf); if (len > 0) ...\<close>: the batch is empty when the
  read returns nothing.
\<close>

definition inotify_events ::
  "Attr list \<Rightarrow> (inotify_event \<times> filesys) list \<Rightarrow> Attr list \<times> call list" where
  "inotify_events attrs batch =
     (case inotify_records attrs batch of (attrs', out) \<Rightarrow> (attrs', Read_inotify # out))"

section \<open>The event loop\<close>

text \<open>
  What one call of \<^verbatim>\<open>select\<close> answers: a failure with its \<^verbatim>\<open>errno\<close>, or the two
  readiness bits (X connection, inotify descriptor); with it, what the X queue and the
  inotify descriptor hold during that cycle.
\<close>

datatype select_result = SelectErr int | SelectReady bool bool

record wake =
  sel :: select_result
  x_pending :: "XEvent list"
  ino_batch :: "(inotify_event \<times> filesys) list"

definition EINTR :: int where
  "EINTR = 4"

datatype outcome = Exit int | Waiting

text \<open>
  The body of the loop after a successful \<^verbatim>\<open>select\<close>: the X11 block, then the inotify
  block, each under its \<^verbatim>\<open>FD_ISSET\<close> test.
\<close>

definition dispatch :: "Attr list \<Rightarrow> bool \<Rightarrow> bool \<Rightarrow> wake \<Rightarrow> Attr list \<times> call list" where
  "dispatch attrs xr ir w =
     (let out1 = (if xr then x11_events attrs (x_pending w) else [])
      in case (if ir then inotify_events attrs (ino_batch w) else (attrs, [])) of
           (attrs1, out2) \<Rightarrow> (attrs1, out1 @ out2))"

text \<open>
  \<^verbatim>\<open>for (;;)\<close> over the answers of the environment; when they are used up the process
  is blocked in \<^verbatim>\<open>select\<close> (\<open>Waiting\<close>).
\<close>

fun event_loop :: "Attr list \<Rightarrow> wake list \<Rightarrow> outcome \<times> Attr list \<times> call list" where
  "event_loop attrs [] = (Waiting, attrs, [Select])"
| "event_loop attrs (w # ws) =
     (case sel w of
        SelectErr e \<Rightarrow>
          if e = EINTR
          then (case event_loop attrs ws of (r, attrs', out) \<Rightarrow> (r, attrs', Select # out))
          else (Exit 0, attrs, [Select, Perror ''select''])
      | SelectReady xr ir \<Rightarrow>
          (case dispatch attrs xr ir w of
             (attrs1, out1) \<Rightarrow>
               (case event_loop attrs1 ws of
                  (r, attrs2, out2) \<Rightarrow> (r, attrs2, Select # out1 @ out2))))"

section \<open>main\<close>

text \<open>
  Everything outside the program that \<^verbatim>\<open>main\<close> asks: the C library's \<^verbatim>\<open>strtoul\<close> with
  base 0, the file system read at start-up, whether \<^verbatim>\<open>XOpenDisplay\<close> succeeds, the
  window id returned by the k-th \<^verbatim>\<open>XCreateSimpleWindow\<close> and the tray owner seen by the
  k-th \<^verbatim>\<open>dock_to_tray\<close>, the result of \<^verbatim>\<open>inotify_init1\<close>, the result of
  \<^verbatim>\<open>inotify_add_watch\<close> for a path with the text of \<^verbatim>\<open>strerror(errno)\<close> after it, and
  the successive answers of \<^verbatim>\<open>select\<close>.
\<close>

record env =
  strtoul :: "string \<Rightarrow> ulong"
  fs0 :: filesys
  display_ok :: bool
  new_window :: "nat \<Rightarrow> Window"
  tray_owner :: "nat \<Rightarrow> Window"
  ino_fd :: int
  add_watch :: "string \<Rightarrow> int"
  strerror_errno :: "string \<Rightarrow> string"
  wakes :: "wake list"

subsection \<open>Argument parsing\<close>

text \<open>\<^verbatim>\<open>strsep(&rest, ":")\<close> on a string, and on a \<^verbatim>\<open>rest\<close> that may be \<^verbatim>\<open>NULL\<close>.\<close>

definition strsep1 :: "string \<Rightarrow> string \<times> string option" where
  "strsep1 s =
     (case dropWhile (\<lambda>c. c \<noteq> CHR '':'') s of
        [] \<Rightarrow> (s, None)
      | _ # r \<Rightarrow> (takeWhile (\<lambda>c. c \<noteq> CHR '':'') s, Some r))"

definition strsep :: "string option \<Rightarrow> string option \<times> string option" where
  "strsep rest =
     (case rest of
        None \<Rightarrow> (None, None)
      | Some s \<Rightarrow> (case strsep1 s of (t, r) \<Rightarrow> (Some t, r)))"

definition parse_color :: "(string \<Rightarrow> ulong) \<Rightarrow> string option \<Rightarrow> string \<Rightarrow> ulong" where
  "parse_color conv s def = conv (case s of Some x \<Rightarrow> x | None \<Rightarrow> def)"

text \<open>
  The body of the parsing loop for one argument; the descriptor comes from \<^verbatim>\<open>calloc\<close>,
  so \<^verbatim>\<open>wd\<close> and \<^verbatim>\<open>win\<close> start at 0. \<^verbatim>\<open>strncpy\<close> keeps 255 and 7 characters.
\<close>

definition parse_attr :: "env \<Rightarrow> string \<Rightarrow> Attr \<times> call list" where
  "parse_attr e arg =
     (case strsep1 arg of (tok1, rest1) \<Rightarrow>
      case strsep rest1 of (tok2, rest2) \<Rightarrow>
      case strsep rest2 of (tok3, rest3) \<Rightarrow>
      case strsep rest3 of (tok4, rest4) \<Rightarrow>
      case strsep rest4 of (tok5, rest5) \<Rightarrow>
      case read_bool (fs0 e) (take 255 tok1) of (v, rd) \<Rightarrow>
        (\<lparr>path = take 255 tok1,
          label = take 7 (case tok2 of Some t \<Rightarrow> t | None \<Rightarrow> []),
          fg = parse_color (strtoul e) tok3 ''0x000000'',
          bg_active = parse_color (strtoul e) tok4 ''0xFFFFFF'',
          bg_inactive = parse_color (strtoul e) tok5 ''0x303030'',
          state = v, wd = 0, win = 0\<rparr>,
         rd))"

subsection \<open>Start-up loops\<close>

text \<open>
  \<^verbatim>\<open>for (int i = n_attr - 1; i >= 0; --i) { create_window(&attrs[i]); draw_icon(&attrs[i]); }\<close>
  The third argument is \<open>i + 1\<close>; \<open>k\<close> counts the windows created so far.
\<close>

fun create_loop :: "env \<Rightarrow> nat \<Rightarrow> nat \<Rightarrow> Attr list \<Rightarrow> Attr list \<times> call list" where
  "create_loop e k 0 attrs = (attrs, [])"
| "create_loop e k (Suc i) attrs =
     (case create_window (new_window e k) (tray_owner e k) (attrs ! i) of
        (a', out1) \<Rightarrow>
          (case create_loop e (Suc k) i (attrs[i := a']) of
             (attrs', out2) \<Rightarrow> (attrs', out1 @ draw_icon a' @ out2)))"

text \<open>The registration loop, in input order.\<close>

fun watch_loop :: "env \<Rightarrow> Attr list \<Rightarrow> Attr list \<times> call list" where
  "watch_loop e [] = ([], [])"
| "watch_loop e (a # as) =
     (case watch_loop e as of
        (as', out) \<Rightarrow>
          (a\<lparr>wd := add_watch e (path a)\<rparr> # as',
           Inotify_add_watch (path a)
           # (if add_watch e (path a) < 0
              then [Fprintf_stderr
                      (''warning: cannot watch '' @ path a @ '' ('' @ strerror_errno e (path a)
                       @ '')'' @ [CHR 0x0A])]
              else [])
           @ out))"

subsection \<open>The program\<close>

text \<open>
  \<open>prog\<close> is \<^verbatim>\<open>argv[0]\<close> and \<open>args\<close> the positional arguments, so \<^verbatim>\<open>argc\<close> is
  \<open>1 + length args\<close>. The result is how the process ends, the descriptors at that
  moment and the calls made.
\<close>

definition main :: "env \<Rightarrow> string \<Rightarrow> string list \<Rightarrow> outcome \<times> Attr list \<times> call list" where
  "main e prog args =
     (if 1 + length args < 2 then
        (Exit 1, [],
         [Fprintf_stderr (''Usage: '' @ prog @ '' PATH:LABEL:FG:BG1:BG0 [...]'' @ [CHR 0x0A])])
      else
        (let parsed = map (parse_attr e) args;
             attrs0 = map fst parsed;
             out0 = concat (map snd parsed)
         in if \<not> display_ok e then
              (Exit 1, attrs0, out0 @ [XOpenDisplay, Perror ''XOpenDisplay''])
            else
              (case create_loop e 0 (length attrs0) attrs0 of
                 (attrs1, out1) \<Rightarrow>
                   (let out01 = out0
                          @ [XOpenDisplay, XInternAtom ''_XEMBED_INFO'',
                             XInternAtom ''_NET_SYSTEM_TRAY_OPCODE'']
                          @ out1
                    in if ino_fd e < 0 then
                         (Exit 1, attrs1, out01 @ [Inotify_init1, Perror ''inotify_init1''])
                       else
                         (case watch_loop e attrs1 of
                            (attrs2, out2) \<Rightarrow>
                              (case event_loop attrs2 (wakes e) of
                                 (r, attrs3, out3) \<Rightarrow>
                                   (r, attrs3, out01 @ [Inotify_init1] @ out2 @ out3)))))))"

section \<open>Reading a trace\<close>

text \<open>
  Each \<^verbatim>\<open>draw_icon\<close> fills its window once, so the windows of the fill calls of a trace,
  in order, are the redraws. Likewise the windows created, the windows for which a dock
  request was sent, the X events taken from the queue.
\<close>

fun painted :: "call \<Rightarrow> Window option" where
  "painted (XFillRectangle w x y ww hh) = Some w"
| "painted _ = None"

definition redraws :: "call list \<Rightarrow> Window list" where
  "redraws out = List.map_filter painted out"

fun created_call :: "call \<Rightarrow> Window option" where
  "created_call (XCreateSimpleWindow w) = Some w"
| "created_call _ = None"

definition created :: "call list \<Rightarrow> Window list" where
  "created out = List.map_filter created_call out"

fun docked_call :: "call \<Rightarrow> Window option" where
  "docked_call (XSendEvent tray w) = Some w"
| "docked_call _ = None"

definition docked :: "call list \<Rightarrow> Window list" where
  "docked out = List.map_filter docked_call out"

fun taken_call :: "call \<Rightarrow> XEvent option" where
  "taken_call (XNextEvent ev) = Some ev"
| "taken_call _ = None"

definition taken :: "call list \<Rightarrow> XEvent list" where
  "taken out = List.map_filter taken_call out"

text \<open>The calls made only while a notification record is handled.\<close>

fun notify_call :: "call \<Rightarrow> bool" where
  "notify_call Read_inotify = True"
| "notify_call (Open p) = True"
| "notify_call Read = True"
| "notify_call Close = True"
| "notify_call _ = False"

text \<open>
  The host tray as the repository's header comment and the spec describe it: each newly
  docked window is put at the left end of the visible row.
\<close>

definition tray_row :: "Window list \<Rightarrow> Window list" where
  "tray_row ws = foldl (\<lambda>row w. w # row) [] ws"

text \<open>The calls that create a window or ask the tray to dock one.\<close>

fun window_call :: "call \<Rightarrow> bool" where
  "window_call (XCreateSimpleWindow w) = True"
| "window_call (XSendEvent tray w) = True"
| "window_call _ = False"

section \<open>The process\<close>





section \<open>Example inputs\<close>

text \<open>A file system given by a table; a path not in the table cannot be opened.\<close>

definition fs_of :: "(string \<times> source) list \<Rightarrow> filesys" where
  "fs_of kv p = (case map_of kv p of Some s \<Rightarrow> s | None \<Rightarrow> OpenFails)"

text \<open>\<^verbatim>\<open>strtoul\<close> with base 0 on the colour literals of the examples.\<close>

definition strtoul_lit :: "string \<Rightarrow> ulong" where
  "strtoul_lit s =
     (if s = ''0xFF0000'' then 0xFF0000
      else if s = ''0x202020'' then 0x202020
      else if s = ''0xFFFFFF'' then 0xFFFFFF
      else if s = ''0x303030'' then 0x303030
      else 0)"

definition attr_a :: Attr where
  "attr_a = \<lparr>path = ''/tmp/a'', label = ''FOO'', fg = 0, bg_active = 0xFF0000,
             bg_inactive = 0x202020, state = 0, wd = 1, win = 100\<rparr>"

definition attr_b :: Attr where
  "attr_b = \<lparr>path = ''/tmp/b'', label = ''BAR'', fg = 0, bg_active = 0xFF0000,
             bg_inactive = 0x202020, state = 0, wd = 2, win = 101\<rparr>"

definition fs_one :: filesys where
  "fs_one = fs_of [(''/tmp/a'', Content (''1'' @ [CHR 0x0A]))]"

definition fs_zero :: filesys where
  "fs_zero = fs_of [(''/tmp/a'', Content (''0'' @ [CHR 0x0A]))]"

definition fs_minus_one :: filesys where
  "fs_minus_one = fs_of [(''/tmp/a'', Content (''-1'' @ [CHR 0x0A]))]"

definition fs_minus_five :: filesys where
  "fs_minus_five = fs_of [(''/tmp/a'', Content (''-5'' @ [CHR 0x0A]))]"

definition fs_none :: filesys where
  "fs_none = fs_of []"

text \<open>A start-up where the source path does not exist.\<close>

definition env_missing :: env where
  "env_missing =
     \<lparr>strtoul = strtoul_lit, fs0 = fs_none, display_ok = True,
      new_window = (\<lambda>k. 100 + of_nat k), tray_owner = (\<lambda>k. 7), ino_fd = 3,
      add_watch = (\<lambda>p. - 1), strerror_errno = (\<lambda>p. ''No such file or directory''),
      wakes = []\<rparr>"

text \<open>A wake cycle with one notification record for watch 1, the source holding \<open>-5\<close>.\<close>

definition wake_minus_five :: wake where
  "wake_minus_five =
     \<lparr>sel = SelectReady False True, x_pending = [],
      ino_batch = [(\<lparr>ie_wd = 1, ie_mask = 2\<rparr>, fs_minus_five)]\<rparr>"

text \<open>A failure of \<^verbatim>\<open>select\<close> other than an interruption by a signal.\<close>

definition fatal :: "wake \<Rightarrow> bool" where
  "fatal w = (case sel w of SelectErr e \<Rightarrow> e \<noteq> EINTR | SelectReady xr ir \<Rightarrow> False)"

definition wake_eintr :: wake where
  "wake_eintr = \<lparr>sel = SelectErr 4, x_pending = [], ino_batch = []\<rparr>"

definition wake_ebadf :: wake where
  "wake_ebadf = \<lparr>sel = SelectErr 9, x_pending = [], ino_batch = []\<rparr>"

text \<open>Start-ups: the wait is interrupted, then fails; no display; no inotify.\<close>

definition env_fatal :: env where
  "env_fatal = env_missing\<lparr>wakes := [wake_eintr, wake_ebadf]\<rparr>"



text \<open>
  One pass of the creation loop for a descriptor: the calls of \<open>create_window\<close> with the
  answers of the k-th creation, then the first paint.
\<close>

definition startup_block :: "env \<Rightarrow> nat \<Rightarrow> Attr \<Rightarrow> call list" where
  "startup_block e k a =
     snd (create_window (new_window e k) (tray_owner e k) a)
     @ draw_icon (fst (create_window (new_window e k) (tray_owner e k) a))"

text \<open>
  A wake cycle with both descriptors ready: an \<^verbatim>\<open>Expose\<close> for window 101 and a key press
  (type 2) in the X queue, one record for watch 1 while the source holds \<open>1\<close>.
\<close>

definition wake_both :: wake where
  "wake_both =
     \<lparr>sel = SelectReady True True, x_pending = [XEvent 12 101, XEvent 2 100],
      ino_batch = [(\<lparr>ie_wd = 1, ie_mask = 2\<rparr>, fs_one)]\<rparr>"

text \<open>
  Notification records delivered one at a time: each wake cycle has only the inotify
  descriptor ready and its batch holds one record.
\<close>

definition one_at_a_time :: "(inotify_event \<times> filesys) list \<Rightarrow> wake list" where
  "one_at_a_time rs =
     map (\<lambda>r. \<lparr>sel = SelectReady False True, x_pending = [], ino_batch = [r]\<rparr>) rs"

text \<open>
  The cached state of descriptor \<open>i\<close> after each record of a sequence, and the number of
  changes in a sequence of states that starts from \<open>s\<close>.
\<close>

fun cached_states :: "nat \<Rightarrow> Attr list \<Rightarrow> (inotify_event \<times> filesys) list \<Rightarrow> int list" where
  "cached_states i attrs [] = []"
| "cached_states i attrs (r # rs) =
     state (fst (notify_scan (snd r) (ie_wd (fst r)) attrs) ! i)
     # cached_states i (fst (notify_scan (snd r) (ie_wd (fst r)) attrs)) rs"

fun transitions :: "int \<Rightarrow> int list \<Rightarrow> nat" where
  "transitions s [] = 0"
| "transitions s (x # xs) = (if x = s then 0 else 1) + transitions x xs"

definition rec_one :: "inotify_event \<times> filesys" where
  "rec_one = (\<lparr>ie_wd = 1, ie_mask = 2\<rparr>, fs_one)"

definition rec_zero :: "inotify_event \<times> filesys" where
  "rec_zero = (\<lparr>ie_wd = 1, ie_mask = 2\<rparr>, fs_zero)"

text \<open>
  A start-up with two readable sources where the watch on the second cannot be registered
  (\<^verbatim>\<open>inotify_add_watch\<close> returns \<open>-1\<close>), followed by one wake cycle in which the kernel
  reports an overflow of the event queue: a record with \<^verbatim>\<open>wd\<close> \<open>-1\<close> and mask
  \<^verbatim>\<open>IN_Q_OVERFLOW\<close> (\<open>0x4000\<close>), see inotify(7). The second source holds \<open>1\<close> by then.
\<close>

definition fs_both_zero :: filesys where
  "fs_both_zero =
     fs_of [(''/tmp/a'', Content (''0'' @ [CHR 0x0A])), (''/tmp/b'', Content (''0'' @ [CHR 0x0A]))]"

definition fs_b_one :: filesys where
  "fs_b_one =
     fs_of [(''/tmp/a'', Content (''0'' @ [CHR 0x0A])), (''/tmp/b'', Content (''1'' @ [CHR 0x0A]))]"

definition wake_overflow :: wake where
  "wake_overflow =
     \<lparr>sel = SelectReady False True, x_pending = [],
      ino_batch = [(\<lparr>ie_wd = - 1, ie_mask = 0x4000\<rparr>, fs_b_one)]\<rparr>"

definition env_overflow :: env where
  "env_overflow =
     \<lparr>strtoul = strtoul_lit, fs0 = fs_both_zero, display_ok = True,
      new_window = (\<lambda>k. 100 + of_nat k), tray_owner = (\<lambda>k. 7), ino_fd = 3,
      add_watch = (\<lambda>p. if p = ''/tmp/a'' then 1 else - 1),
      strerror_errno = (\<lambda>p. ''No space left on device''),
      wakes = [wake_overflow]\<rparr>"



text \<open>Three positional arguments.\<close>

definition args_abc :: "string list" where
  "args_abc =
     [''/tmp/a:FOO:0x000000:0xFF0000:0x202020'', ''/tmp/b:BAR:0x000000:0xFF0000:0x202020'',
      ''/tmp/c:BAZ:0x000000:0xFF0000:0x202020'']"

section \<open>Facts about the helpers\<close>

lemma atoi_examples:
  "atoi (''1'' @ [CHR 0x0A]) = 1" "atoi (''0'' @ [CHR 0x0A]) = 0" "atoi '' -12x'' = - 12"
  "atoi ''+7'' = 7" "atoi ''abc'' = 0" "atoi [] = 0" "atoi ''0000000'' = 0"
  "atoi ''9999999'' = 9999999"
  by (simp_all add: atoi_def isspace_def isdigit_def)

lemma redraws_append: "redraws (xs @ ys) = redraws xs @ redraws ys"
  by (simp add: redraws_def map_filter_def)

lemma redraws_Cons: "redraws (c # cs) = (case painted c of None \<Rightarrow> [] | Some w \<Rightarrow> [w]) @ redraws cs"
  by (simp add: redraws_def map_filter_def split: option.splits)

lemma redraws_Nil: "redraws [] = []"
  by (simp add: redraws_def map_filter_def)

lemma redraws_read_bool: "redraws (snd (read_bool fs p)) = []"
  by (simp add: read_bool_def redraws_def map_filter_def Let_def split: source.splits)

lemma redraws_draw_icon: "redraws (draw_icon a) = [win a]"
  by (simp add: draw_icon_def redraws_def map_filter_def)

lemma notify_scan_skip:
  "\<forall>b \<in> set pre. wd b \<noteq> w \<Longrightarrow>
   notify_scan fs w (pre @ xs) = (pre @ fst (notify_scan fs w xs), snd (notify_scan fs w xs))"
  by (induction pre) (auto split: prod.splits)

lemma notify_scan_owner:
  assumes "\<forall>b \<in> set pre. wd b \<noteq> w" and "wd a = w"
  shows "notify_scan fs w (pre @ a # post) =
     (if 0 \<le> fst (read_bool fs (path a)) \<and> fst (read_bool fs (path a)) \<noteq> state a
      then (pre @ a\<lparr>state := fst (read_bool fs (path a))\<rparr> # post,
            snd (read_bool fs (path a)) @ draw_icon (a\<lparr>state := fst (read_bool fs (path a))\<rparr>))
      else (pre @ a # post, snd (read_bool fs (path a))))"
  using assms by (simp add: notify_scan_skip split: prod.splits)

lemma notify_scan_no_owner:
  "\<forall>b \<in> set attrs. wd b \<noteq> w \<Longrightarrow> notify_scan fs w attrs = (attrs, [])"
  by (induction attrs) (auto split: prod.splits)

lemma notify_scan_length: "length (fst (notify_scan fs w attrs)) = length attrs"
  by (induction attrs) (auto split: prod.splits)

lemma notify_scan_state:
  "i < length attrs \<Longrightarrow>
   state (fst (notify_scan fs w attrs) ! i) = state (attrs ! i) \<or>
   0 \<le> state (fst (notify_scan fs w attrs) ! i)"
proof (induction attrs arbitrary: i)
  case Nil
  then show ?case by simp
next
  case (Cons a as)
  show ?case
  proof (cases i)
    case 0
    then show ?thesis by (auto split: prod.splits)
  next
    case (Suc j)
    with Cons.prems have "j < length as" by simp
    from Cons.IH [OF this] Suc show ?thesis by (auto split: prod.splits)
  qed
qed

lemma notify_scan_fields:
  "i < length attrs \<Longrightarrow>
   fst (notify_scan fs w attrs) ! i
     = (attrs ! i)\<lparr>state := state (fst (notify_scan fs w attrs) ! i)\<rparr>"
proof (induction attrs arbitrary: i)
  case Nil
  then show ?case by simp
next
  case (Cons a as)
  show ?case
  proof (cases i)
    case 0
    then show ?thesis by (auto split: prod.splits)
  next
    case (Suc j)
    with Cons.prems have "j < length as" by simp
    from Cons.IH [OF this] Suc show ?thesis by (auto split: prod.splits)
  qed
qed

section \<open>Rendering of an unreadable source (C1)\<close>

text \<open>
  C1 says that a descriptor whose source could not be opened or read is rendered like an
  inactive one: filled with \<open>bg_inactive\<close>, no label. At start-up the result \<open>-1\<close> of
  \<open>read_bool\<close> is stored in \<open>state\<close> unchecked, and \<open>draw_icon\<close> tests \<open>state\<close> for being
  nonzero. For a path that does not exist the run below fills the window with \<open>bg_active\<close>
  (\<open>0xFF0000\<close>) and draws the label \<open>FOO\<close> in \<open>fg\<close>.
\<close>

theorem unknown_state_drawn_active:
  "main env_missing ''prog'' [''/nonexistent:FOO:0x000000:0xFF0000:0x202020''] =
     (Waiting,
      [\<lparr>path = ''/nonexistent'', label = ''FOO'', fg = 0, bg_active = 0xFF0000,
        bg_inactive = 0x202020, state = - 1, wd = - 1, win = 100\<rparr>],
      [Open ''/nonexistent'', XOpenDisplay, XInternAtom ''_XEMBED_INFO'',
       XInternAtom ''_NET_SYSTEM_TRAY_OPCODE'', XCreateSimpleWindow 100, XChangeProperty 100,
       XSelectInput 100, XMapWindow 100, XGetSelectionOwner, XSendEvent 7 100, XCreateGC 100,
       XSetForeground 0xFF0000, XFillRectangle 100 0 0 24 24, XSetForeground 0,
       XDrawString 100 3 16 ''FOO'', XFreeGC, XSync, Inotify_init1,
       Inotify_add_watch ''/nonexistent'',
       Fprintf_stderr
         (''warning: cannot watch /nonexistent (No such file or directory)'' @ [CHR 0x0A]),
       Select])"
  by (simp add: main_def env_missing_def parse_attr_def strsep1_def strsep_def parse_color_def
      strtoul_lit_def fs_none_def fs_of_def read_bool_def create_window_def dock_to_tray_def
      draw_icon_def ICON_SZ_def)

section \<open>The result of read_bool (C3)\<close>

text \<open>
  C3 as stated says that the unknown result \<open>-1\<close> comes exactly from a failed open or
  read. A source whose content is \<open>-1\<close> is opened and read without failure and gives the
  same result as a path that cannot be opened.
\<close>

theorem read_bool_unknown_without_failure:
  "fs_minus_one ''/tmp/a'' = Content (''-1'' @ [CHR 0x0A]) \<and>
   fst (read_bool fs_minus_one ''/tmp/a'') = - 1 \<and>
   fs_none ''/tmp/a'' = OpenFails \<and>
   fst (read_bool fs_none ''/tmp/a'') = - 1"
  by (simp add: fs_minus_one_def fs_none_def fs_of_def read_bool_def atoi_def c_str_def
      isspace_def isdigit_def)

text \<open>
  C3, amended: \<open>read_bool\<close> always returns a value. It is \<open>-1\<close> whenever the open fails,
  the read fails or no byte is read. Otherwise it is \<open>atoi\<close> of the at most seven bytes
  read (so zero exactly when the leading integer is zero, nonzero otherwise). The result
  is \<open>-1\<close> exactly in the failure cases and when those bytes parse to \<open>-1\<close>.
\<close>

theorem read_bool_result:
  "(fs p = OpenFails \<or> fs p = ReadFails \<or> fs p = Content [] \<longrightarrow> fst (read_bool fs p) = - 1) \<and>
   (\<forall>bs. fs p = Content bs \<and> bs \<noteq> [] \<longrightarrow> fst (read_bool fs p) = atoi (c_str (take 7 bs))) \<and>
   ((fst (read_bool fs p) = - 1) =
      (fs p = OpenFails \<or> fs p = ReadFails \<or> fs p = Content [] \<or>
       (\<exists>bs. fs p = Content bs \<and> atoi (c_str (take 7 bs)) = - 1)))"
  by (cases "fs p") (auto simp: read_bool_def Let_def)

theorem read_bool_result_witness:
  "fs_one ''/tmp/a'' = Content (''1'' @ [CHR 0x0A]) \<and> fst (read_bool fs_one ''/tmp/a'') = 1 \<and>
   fs_none ''/tmp/a'' = OpenFails \<and> fst (read_bool fs_none ''/tmp/a'') = - 1"
  using read_bool_result [of fs_one "''/tmp/a''"] read_bool_result [of fs_none "''/tmp/a''"]
  by (simp add: fs_one_def fs_none_def fs_of_def atoi_def c_str_def isspace_def isdigit_def)

section \<open>Facts about the loops\<close>

lemma inotify_records_Cons_fst:
  "fst (inotify_records attrs (r # rs))
     = fst (inotify_records (fst (notify_scan (snd r) (ie_wd (fst r)) attrs)) rs)"
  by (simp split: prod.splits)

lemma inotify_records_Cons_snd:
  "snd (inotify_records attrs (r # rs))
     = snd (notify_scan (snd r) (ie_wd (fst r)) attrs)
       @ snd (inotify_records (fst (notify_scan (snd r) (ie_wd (fst r)) attrs)) rs)"
  by (simp split: prod.splits)

lemma inotify_records_length: "length (fst (inotify_records attrs rs)) = length attrs"
proof (induction rs arbitrary: attrs)
  case Nil
  then show ?case by simp
next
  case (Cons r rs)
  show ?case unfolding inotify_records_Cons_fst by (simp add: Cons.IH notify_scan_length)
qed

lemma inotify_records_state:
  "i < length attrs \<Longrightarrow>
   state (fst (inotify_records attrs rs) ! i) = state (attrs ! i) \<or>
   0 \<le> state (fst (inotify_records attrs rs) ! i)"
proof (induction rs arbitrary: attrs)
  case Nil
  then show ?case by simp
next
  case (Cons r rs)
  let ?mid = "fst (notify_scan (snd r) (ie_wd (fst r)) attrs)"
  have len: "i < length ?mid" using Cons.prems by (simp add: notify_scan_length)
  have step: "state (?mid ! i) = state (attrs ! i) \<or> 0 \<le> state (?mid ! i)"
    using Cons.prems by (rule notify_scan_state)
  have rest: "state (fst (inotify_records ?mid rs) ! i) = state (?mid ! i) \<or>
      0 \<le> state (fst (inotify_records ?mid rs) ! i)"
    using len by (rule Cons.IH)
  from step rest show ?case unfolding inotify_records_Cons_fst by auto
qed

lemma dispatch_fst:
  "fst (dispatch attrs xr ir w) = (if ir then fst (inotify_records attrs (ino_batch w)) else attrs)"
  by (simp add: dispatch_def inotify_events_def Let_def split: prod.splits)

lemma dispatch_snd:
  "snd (dispatch attrs xr ir w)
     = (if xr then x11_events attrs (x_pending w) else [])
       @ (if ir then Read_inotify # snd (inotify_records attrs (ino_batch w)) else [])"
  by (simp add: dispatch_def inotify_events_def Let_def split: prod.splits)

lemma dispatch_length: "length (fst (dispatch attrs xr ir w)) = length attrs"
  by (simp add: dispatch_fst inotify_records_length)

lemma dispatch_state:
  "i < length attrs \<Longrightarrow>
   state (fst (dispatch attrs xr ir w) ! i) = state (attrs ! i) \<or>
   0 \<le> state (fst (dispatch attrs xr ir w) ! i)"
  using inotify_records_state [of i attrs "ino_batch w"] by (simp add: dispatch_fst)

lemma event_loop_eintr:
  "sel w = SelectErr EINTR \<Longrightarrow>
   event_loop attrs (w # ws)
     = (fst (event_loop attrs ws), fst (snd (event_loop attrs ws)),
        Select # snd (snd (event_loop attrs ws)))"
  by (simp split: prod.splits)

lemma event_loop_fatal:
  "sel w = SelectErr e \<Longrightarrow> e \<noteq> EINTR \<Longrightarrow>
   event_loop attrs (w # ws) = (Exit 0, attrs, [Select, Perror ''select''])"
  by simp

lemma event_loop_ready:
  "sel w = SelectReady xr ir \<Longrightarrow>
   event_loop attrs (w # ws)
     = (fst (event_loop (fst (dispatch attrs xr ir w)) ws),
        fst (snd (event_loop (fst (dispatch attrs xr ir w)) ws)),
        Select # snd (dispatch attrs xr ir w)
        @ snd (snd (event_loop (fst (dispatch attrs xr ir w)) ws)))"
  by (simp split: prod.splits)

lemma event_loop_length: "length (fst (snd (event_loop attrs ws))) = length attrs"
proof (induction ws arbitrary: attrs)
  case Nil
  then show ?case by simp
next
  case (Cons w ws)
  show ?case
  proof (cases "sel w")
    case (SelectErr e)
    then show ?thesis
      by (cases "e = EINTR") (simp_all add: event_loop_eintr event_loop_fatal Cons.IH del: event_loop.simps)
  next
    case (SelectReady xr ir)
    then show ?thesis
      by (simp add: event_loop_ready Cons.IH dispatch_length del: event_loop.simps)
  qed
qed

lemma event_loop_state:
  "i < length attrs \<Longrightarrow>
   state (fst (snd (event_loop attrs ws)) ! i) = state (attrs ! i) \<or>
   0 \<le> state (fst (snd (event_loop attrs ws)) ! i)"
proof (induction ws arbitrary: attrs)
  case Nil
  then show ?case by simp
next
  case (Cons w ws)
  show ?case
  proof (cases "sel w")
    case (SelectErr e)
    then show ?thesis using Cons.IH [OF Cons.prems]
      by (cases "e = EINTR") (simp_all add: event_loop_eintr event_loop_fatal del: event_loop.simps)
  next
    case (SelectReady xr ir)
    let ?mid = "fst (dispatch attrs xr ir w)"
    have len: "i < length ?mid" using Cons.prems by (simp add: dispatch_length)
    have unfold: "fst (snd (event_loop attrs (w # ws))) = fst (snd (event_loop ?mid ws))"
      using SelectReady by (simp add: event_loop_ready del: event_loop.simps)
    from Cons.IH [OF len] dispatch_state [OF Cons.prems, of xr ir w]
    show ?thesis unfolding unfold by auto
  qed
qed

section \<open>The update policy (C2)\<close>

text \<open>
  C2 as stated says that a re-read which succeeds with a value different from the cached
  state updates the state and redraws. The source below is opened and read without
  failure, its value \<open>-5\<close> differs from the cached 0, and the descriptor is left as it was
  with no drawing call: the guard is \<^verbatim>\<open>v >= 0 && v != attrs[i].state\<close>.
\<close>

theorem reread_negative_value_not_applied:
  "wd attr_a = 1 \<and> state attr_a = 0 \<and>
   fs_minus_five (path attr_a) = Content (''-5'' @ [CHR 0x0A]) \<and>
   read_bool fs_minus_five (path attr_a) = (- 5, [Open ''/tmp/a'', Read, Close]) \<and>
   notify_scan fs_minus_five 1 [attr_a] = ([attr_a], [Open ''/tmp/a'', Read, Close])"
  by (simp add: attr_a_def fs_minus_five_def fs_of_def read_bool_def atoi_def c_str_def
      isspace_def isdigit_def)

text \<open>
  C2, amended: a notification record is dispatched to the first descriptor whose watch
  descriptor is the record's, and the source of that descriptor is re-read. If the re-read
  fails or yields a negative value, the cached state is retained and nothing is redrawn.
  If it yields a non-negative value different from the cached state, the state is updated
  and the icon is redrawn once. If the value is the cached one, nothing is redrawn.
\<close>

theorem update_policy:
  assumes "\<forall>b \<in> set pre. wd b \<noteq> w" and "wd a = w"
  shows "(\<exists>rest. snd (notify_scan fs w (pre @ a # post)) = Open (path a) # rest) \<and>
    (fs (path a) = OpenFails \<or> fs (path a) = ReadFails \<or> fs (path a) = Content []
       \<or> fst (read_bool fs (path a)) < 0 \<longrightarrow>
       fst (notify_scan fs w (pre @ a # post)) = pre @ a # post \<and>
       redraws (snd (notify_scan fs w (pre @ a # post))) = []) \<and>
    (0 \<le> fst (read_bool fs (path a)) \<and> fst (read_bool fs (path a)) \<noteq> state a \<longrightarrow>
       notify_scan fs w (pre @ a # post)
         = (pre @ a\<lparr>state := fst (read_bool fs (path a))\<rparr> # post,
            snd (read_bool fs (path a))
            @ draw_icon (a\<lparr>state := fst (read_bool fs (path a))\<rparr>)) \<and>
       redraws (snd (notify_scan fs w (pre @ a # post))) = [win a]) \<and>
    (fst (read_bool fs (path a)) = state a \<longrightarrow>
       fst (notify_scan fs w (pre @ a # post)) = pre @ a # post \<and>
       redraws (snd (notify_scan fs w (pre @ a # post))) = [])"
proof -
  have fail: "fst (read_bool fs (path a)) < 0"
    if "fs (path a) = OpenFails \<or> fs (path a) = ReadFails \<or> fs (path a) = Content []"
    using that by (auto simp: read_bool_def)
  have first: "\<exists>rest. snd (read_bool fs (path a)) = Open (path a) # rest"
    by (simp add: read_bool_def Let_def split: source.splits)
  show ?thesis
    using fail first
    by (auto simp: notify_scan_owner [OF assms] redraws_append redraws_read_bool
        redraws_draw_icon)
qed

theorem update_policy_witness:
  "wd attr_b \<noteq> 1 \<and> wd attr_a = 1 \<and> state attr_a = 0 \<and>
   read_bool fs_one (path attr_a) = (1, [Open ''/tmp/a'', Read, Close]) \<and>
   notify_scan fs_one 1 ([attr_b] @ attr_a # [])
     = ([attr_b, attr_a\<lparr>state := 1\<rparr>],
        [Open ''/tmp/a'', Read, Close] @ draw_icon (attr_a\<lparr>state := 1\<rparr>)) \<and>
   redraws (snd (notify_scan fs_one 1 ([attr_b] @ attr_a # []))) = [100] \<and>
   read_bool fs_zero (path attr_a) = (0, [Open ''/tmp/a'', Read, Close]) \<and>
   fst (notify_scan fs_zero 1 ([attr_b] @ attr_a # [])) = [attr_b, attr_a] \<and>
   redraws (snd (notify_scan fs_zero 1 ([attr_b] @ attr_a # []))) = [] \<and>
   fs_none (path attr_a) = OpenFails \<and>
   fst (notify_scan fs_none 1 ([attr_b] @ attr_a # [])) = [attr_b, attr_a] \<and>
   redraws (snd (notify_scan fs_none 1 ([attr_b] @ attr_a # []))) = []"
proof -
  have r1: "read_bool fs_one (path attr_a) = (1, [Open ''/tmp/a'', Read, Close])"
    by (simp add: attr_a_def fs_one_def fs_of_def read_bool_def atoi_def c_str_def
        isspace_def isdigit_def)
  have r0: "read_bool fs_zero (path attr_a) = (0, [Open ''/tmp/a'', Read, Close])"
    by (simp add: attr_a_def fs_zero_def fs_of_def read_bool_def atoi_def c_str_def
        isspace_def isdigit_def)
  have rn: "fs_none (path attr_a) = OpenFails"
    by (simp add: fs_none_def fs_of_def)
  have wds: "\<forall>b \<in> set [attr_b]. wd b \<noteq> 1" "wd attr_b \<noteq> 1" "wd attr_a = 1" "state attr_a = 0"
    "win attr_a = 100"
    by (simp_all add: attr_a_def attr_b_def)
  from update_policy [OF wds(1) wds(3), of fs_one "[]"]
       update_policy [OF wds(1) wds(3), of fs_zero "[]"]
       update_policy [OF wds(1) wds(3), of fs_none "[]"]
  show ?thesis using r1 r0 rn wds
    by (simp add: redraws_Cons redraws_Nil redraws_draw_icon)
qed

section \<open>Negative re-read values (C10)\<close>

text \<open>
  C10: while a notification is handled, a negative result of the re-read, from a failed
  open or read or from content that parses to a negative integer, leaves the cached state
  as it was and draws nothing; so whatever the event loop stores in a cached state is
  non-negative.
\<close>

theorem negative_reread_ignored:
  "((\<forall>b \<in> set pre. wd b \<noteq> w) \<and> wd a = w \<and> fst (read_bool fs (path a)) < 0 \<longrightarrow>
      notify_scan fs w (pre @ a # post) = (pre @ a # post, snd (read_bool fs (path a))) \<and>
      redraws (snd (notify_scan fs w (pre @ a # post))) = []) \<and>
   (\<forall>i < length attrs.
      state (fst (snd (event_loop attrs ws)) ! i) = state (attrs ! i) \<or>
      0 \<le> state (fst (snd (event_loop attrs ws)) ! i))"
  by (simp add: notify_scan_owner redraws_read_bool event_loop_state)

theorem negative_reread_ignored_witness:
  "wd attr_b \<noteq> 1 \<and> wd attr_a = 1 \<and>
   fst (read_bool fs_minus_five (path attr_a)) = - 5 \<and>
   fst (read_bool fs_none (path attr_a)) = - 1 \<and>
   notify_scan fs_minus_five 1 ([attr_b] @ attr_a # [])
     = ([attr_b, attr_a], [Open ''/tmp/a'', Read, Close]) \<and>
   notify_scan fs_none 1 ([attr_b] @ attr_a # []) = ([attr_b, attr_a], [Open ''/tmp/a'']) \<and>
   state (fst (snd (event_loop [attr_b, attr_a] [wake_minus_five])) ! 1) = 0"
proof -
  have r5: "read_bool fs_minus_five (path attr_a) = (- 5, [Open ''/tmp/a'', Read, Close])"
    by (simp add: attr_a_def fs_minus_five_def fs_of_def read_bool_def atoi_def c_str_def
        isspace_def isdigit_def)
  have r0: "read_bool fs_none (path attr_a) = (- 1, [Open ''/tmp/a''])"
    by (simp add: attr_a_def fs_none_def fs_of_def read_bool_def)
  have wds: "wd attr_b \<noteq> 1" "wd attr_a = 1" "state attr_a = 0"
    by (simp_all add: attr_a_def attr_b_def)
  have ev: "state (fst (snd (event_loop [attr_b, attr_a] [wake_minus_five])) ! 1) = 0"
    by (simp add: wake_minus_five_def wds r5 dispatch_def inotify_events_def)
  from negative_reread_ignored
         [of "[attr_b]" 1 attr_a fs_minus_five "[]" "[attr_b, attr_a]" "[wake_minus_five]"]
       negative_reread_ignored [of "[attr_b]" 1 attr_a fs_none "[]" "[]" "[]"]
  show ?thesis using r5 r0 wds ev by simp
qed

section \<open>Failure of the wait (C7)\<close>

lemma event_loop_first_fatal:
  "\<forall>v \<in> set ws1. \<not> fatal v \<Longrightarrow> fatal w \<Longrightarrow>
   fst (event_loop attrs (ws1 @ w # ws2)) = Exit 0 \<and>
   (\<exists>pre. snd (snd (event_loop attrs (ws1 @ w # ws2))) = pre @ [Select, Perror ''select''])"
proof (induction ws1 arbitrary: attrs)
  case Nil
  then show ?case by (auto simp: fatal_def split: select_result.splits)
next
  case (Cons v ws1)
  from Cons.prems have nf: "\<not> fatal v" and rest: "\<forall>v \<in> set ws1. \<not> fatal v" by simp_all
  show ?case
  proof (cases "sel v")
    case (SelectErr e)
    with nf have e: "sel v = SelectErr EINTR" by (simp add: fatal_def)
    from Cons.IH [OF rest Cons.prems(2), of attrs] show ?thesis
      by (auto simp: event_loop_eintr [OF e] simp del: event_loop.simps)
  next
    case (SelectReady xr ir)
    from Cons.IH [OF rest Cons.prems(2), of "fst (dispatch attrs xr ir v)"] show ?thesis
      by (auto simp: event_loop_ready [OF SelectReady] simp del: event_loop.simps)
  qed
qed

lemma argc_ok: "args \<noteq> [] \<Longrightarrow> \<not> 1 + length args < 2"
  by (cases args) simp_all

lemma main_started:
  assumes "args \<noteq> []" and "display_ok e" and "0 \<le> ino_fd e"
  shows "main e prog args =
     (fst (event_loop
             (fst (watch_loop e
                (fst (create_loop e 0 (length args) (map fst (map (parse_attr e) args))))))
             (wakes e)),
      fst (snd (event_loop
             (fst (watch_loop e
                (fst (create_loop e 0 (length args) (map fst (map (parse_attr e) args))))))
             (wakes e))),
      (concat (map snd (map (parse_attr e) args))
       @ [XOpenDisplay, XInternAtom ''_XEMBED_INFO'', XInternAtom ''_NET_SYSTEM_TRAY_OPCODE'']
       @ snd (create_loop e 0 (length args) (map fst (map (parse_attr e) args)))
       @ [Inotify_init1]
       @ snd (watch_loop e
                (fst (create_loop e 0 (length args) (map fst (map (parse_attr e) args))))))
      @ snd (snd (event_loop
             (fst (watch_loop e
                (fst (create_loop e 0 (length args) (map fst (map (parse_attr e) args))))))
             (wakes e))))"
  using assms argc_ok [OF assms(1)]
  by (simp add: main_def Let_def split: prod.splits del: create_loop.simps)

lemma main_running:
  assumes "args \<noteq> []" and "display_ok e" and "0 \<le> ino_fd e"
  shows "\<exists>attrs pre. fst (main e prog args) = fst (event_loop attrs (wakes e)) \<and>
     snd (snd (main e prog args)) = pre @ snd (snd (event_loop attrs (wakes e)))"
  unfolding main_started [OF assms] by (simp only: fst_conv snd_conv) blast

text \<open>
  C7: when \<^verbatim>\<open>select\<close> fails with \<open>EINTR\<close> the loop calls \<^verbatim>\<open>select\<close> again with the
  descriptors unchanged and nothing else done; when it fails with any other error the loop
  stops after \<^verbatim>\<open>perror\<close>, and \<open>main\<close> returns 0 with no further call (no teardown).
\<close>

theorem select_failure:
  "(sel w = SelectErr EINTR \<longrightarrow>
      event_loop attrs (w # ws)
        = (fst (event_loop attrs ws), fst (snd (event_loop attrs ws)),
           Select # snd (snd (event_loop attrs ws)))) \<and>
   (\<forall>err. sel w = SelectErr err \<and> err \<noteq> EINTR \<longrightarrow>
      event_loop attrs (w # ws) = (Exit 0, attrs, [Select, Perror ''select''])) \<and>
   (args \<noteq> [] \<and> display_ok e \<and> 0 \<le> ino_fd e \<and> wakes e = ws1 @ w # ws2 \<and>
    (\<forall>v \<in> set ws1. \<not> fatal v) \<and> fatal w \<longrightarrow>
      fst (main e prog args) = Exit 0 \<and>
      (\<exists>pre. snd (snd (main e prog args)) = pre @ [Select, Perror ''select'']))"
proof (intro conjI impI allI)
  assume "sel w = SelectErr EINTR"
  then show "event_loop attrs (w # ws)
        = (fst (event_loop attrs ws), fst (snd (event_loop attrs ws)),
           Select # snd (snd (event_loop attrs ws)))"
    by (rule event_loop_eintr)
next
  fix err
  assume "sel w = SelectErr err \<and> err \<noteq> EINTR"
  then show "event_loop attrs (w # ws) = (Exit 0, attrs, [Select, Perror ''select''])"
    by (simp add: event_loop_fatal)
next
  assume h: "args \<noteq> [] \<and> display_ok e \<and> 0 \<le> ino_fd e \<and> wakes e = ws1 @ w # ws2 \<and>
    (\<forall>v \<in> set ws1. \<not> fatal v) \<and> fatal w"
  then obtain attrs' pre where
    m: "fst (main e prog args) = fst (event_loop attrs' (wakes e))"
       "snd (snd (main e prog args)) = pre @ snd (snd (event_loop attrs' (wakes e)))"
    using main_running [of args e prog] by blast
  from h event_loop_first_fatal [of ws1 w attrs' ws2]
  obtain pre' where
    l: "fst (event_loop attrs' (ws1 @ w # ws2)) = Exit 0"
       "snd (snd (event_loop attrs' (ws1 @ w # ws2))) = pre' @ [Select, Perror ''select'']"
    by blast
  from h m l show "fst (main e prog args) = Exit 0" by simp
  from h m l have "snd (snd (main e prog args)) = (pre @ pre') @ [Select, Perror ''select'']"
    by simp
  then show "\<exists>pre. snd (snd (main e prog args)) = pre @ [Select, Perror ''select'']"
    by blast
qed

theorem select_failure_witness:
  "sel wake_eintr = SelectErr EINTR \<and> sel wake_ebadf = SelectErr 9 \<and> 9 \<noteq> EINTR \<and>
   \<not> fatal wake_eintr \<and> fatal wake_ebadf \<and>
   event_loop [attr_a] (wake_eintr # [wake_ebadf])
     = (Exit 0, [attr_a], [Select, Select, Perror ''select'']) \<and>
   display_ok env_fatal \<and> 0 \<le> ino_fd env_fatal \<and>
   wakes env_fatal = [wake_eintr] @ wake_ebadf # [] \<and>
   fst (main env_fatal ''prog'' [''/nonexistent:FOO:0x000000:0xFF0000:0x202020'']) = Exit 0"
proof -
  have f: "sel wake_eintr = SelectErr EINTR" "sel wake_ebadf = SelectErr 9" "9 \<noteq> EINTR"
    "\<not> fatal wake_eintr" "fatal wake_ebadf" "\<forall>v \<in> set [wake_eintr]. \<not> fatal v"
    by (simp_all add: wake_eintr_def wake_ebadf_def EINTR_def fatal_def)
  have g: "display_ok env_fatal" "0 \<le> ino_fd env_fatal"
    "wakes env_fatal = [wake_eintr] @ wake_ebadf # []"
    by (simp_all add: env_fatal_def env_missing_def)
  have a: "event_loop [attr_a] [wake_ebadf] = (Exit 0, [attr_a], [Select, Perror ''select''])"
    using select_failure [of wake_ebadf "[attr_a]" "[]" "[]" env_fatal "[]" "[]" "[]"] f
    by (simp del: event_loop.simps)
  have b: "event_loop [attr_a] (wake_eintr # [wake_ebadf])
     = (Exit 0, [attr_a], [Select, Select, Perror ''select''])"
    using select_failure [of wake_eintr "[attr_a]" "[wake_ebadf]" "[]" env_fatal "[]" "[]" "[]"] f a
    by (simp del: event_loop.simps)
  have c: "fst (main env_fatal ''prog'' [''/nonexistent:FOO:0x000000:0xFF0000:0x202020'']) = Exit 0"
    using select_failure [of wake_ebadf "[]" "[]"
        "[''/nonexistent:FOO:0x000000:0xFF0000:0x202020'']" env_fatal "[wake_eintr]" "[]" "''prog''"]
      f g
    by simp
  from f g b c show ?thesis by simp
qed

section \<open>The return value of main\<close>



section \<open>The creation loop\<close>

lemma create_loop_Suc_fst:
  "fst (create_loop e k (Suc i) attrs)
     = fst (create_loop e (Suc k) i (attrs[i := (attrs ! i)\<lparr>win := new_window e k\<rparr>]))"
  by (simp add: create_window_def split: prod.splits)

lemma create_loop_Suc_snd:
  "snd (create_loop e k (Suc i) attrs)
     = startup_block e k (attrs ! i)
       @ snd (create_loop e (Suc k) i (attrs[i := (attrs ! i)\<lparr>win := new_window e k\<rparr>]))"
  by (simp add: create_window_def startup_block_def split: prod.splits)

lemma create_loop_snd:
  "n \<le> length attrs \<Longrightarrow>
   snd (create_loop e k n attrs)
     = concat (map (\<lambda>(j, a). startup_block e j a) (zip [k..<k + n] (rev (take n attrs))))"
proof (induction n arbitrary: k attrs)
  case 0
  then show ?case by simp
next
  case (Suc n)
  let ?attrs = "attrs[n := (attrs ! n)\<lparr>win := new_window e k\<rparr>]"
  from Suc.prems have n: "n < length attrs" by simp
  have ih: "snd (create_loop e (Suc k) n ?attrs)
      = concat (map (\<lambda>(j, a). startup_block e j a) (zip [Suc k..<Suc k + n] (rev (take n ?attrs))))"
    using n by (intro Suc.IH) simp
  have tk: "take n ?attrs = take n attrs" by simp
  have up: "[k..<k + Suc n] = k # [Suc k..<Suc k + n]" by (simp add: upt_rec)
  have rv: "rev (take (Suc n) attrs) = attrs ! n # rev (take n attrs)"
    using n by (simp add: take_Suc_conv_app_nth)
  show ?case unfolding create_loop_Suc_snd ih tk up rv by simp
qed

lemma create_loop_fst:
  "n \<le> length attrs \<Longrightarrow>
   fst (create_loop e k n attrs)
     = rev (map (\<lambda>(j, a). a\<lparr>win := new_window e j\<rparr>) (zip [k..<k + n] (rev (take n attrs))))
       @ drop n attrs"
proof (induction n arbitrary: k attrs)
  case 0
  then show ?case by simp
next
  case (Suc n)
  let ?attrs = "attrs[n := (attrs ! n)\<lparr>win := new_window e k\<rparr>]"
  from Suc.prems have n: "n < length attrs" by simp
  have ih: "fst (create_loop e (Suc k) n ?attrs)
      = rev (map (\<lambda>(j, a). a\<lparr>win := new_window e j\<rparr>) (zip [Suc k..<Suc k + n] (rev (take n ?attrs))))
        @ drop n ?attrs"
    using n by (intro Suc.IH) simp
  have tk: "take n ?attrs = take n attrs" by simp
  have dr: "drop n ?attrs = (attrs ! n)\<lparr>win := new_window e k\<rparr> # drop (Suc n) attrs"
    using n by (simp add: Cons_nth_drop_Suc [symmetric])
  have up: "[k..<k + Suc n] = k # [Suc k..<Suc k + n]" by (simp add: upt_rec)
  have rv: "rev (take (Suc n) attrs) = attrs ! n # rev (take n attrs)"
    using n by (simp add: take_Suc_conv_app_nth)
  show ?case unfolding create_loop_Suc_fst ih tk dr up rv by simp
qed

lemma created_append: "created (xs @ ys) = created xs @ created ys"
  by (simp add: created_def map_filter_def)

lemma created_Nil: "created [] = []"
  by (simp add: created_def map_filter_def)

lemma docked_append: "docked (xs @ ys) = docked xs @ docked ys"
  by (simp add: docked_def map_filter_def)

lemma docked_Nil: "docked [] = []"
  by (simp add: docked_def map_filter_def)

lemma created_startup_block: "created (startup_block e k a) = [new_window e k]"
  by (simp add: startup_block_def create_window_def dock_to_tray_def draw_icon_def created_def
      map_filter_def)

lemma redraws_startup_block: "redraws (startup_block e k a) = [new_window e k]"
  by (simp add: startup_block_def create_window_def dock_to_tray_def draw_icon_def redraws_def
      map_filter_def)

lemma docked_startup_block:
  "docked (startup_block e k a) = (if tray_owner e k = 0 then [] else [new_window e k])"
  by (simp add: startup_block_def create_window_def dock_to_tray_def draw_icon_def docked_def
      map_filter_def)

lemma created_blocks:
  "created (concat (map (\<lambda>(k, a). startup_block e k a) zs)) = map (\<lambda>(k, a). new_window e k) zs"
  by (induction zs) (auto simp: created_append created_Nil created_startup_block)

lemma redraws_blocks:
  "redraws (concat (map (\<lambda>(k, a). startup_block e k a) zs)) = map (\<lambda>(k, a). new_window e k) zs"
  by (induction zs) (auto simp: redraws_append redraws_Nil redraws_startup_block)

lemma docked_blocks:
  "\<forall>(k, a) \<in> set zs. tray_owner e k \<noteq> 0 \<Longrightarrow>
   docked (concat (map (\<lambda>(k, a). startup_block e k a) zs)) = map (\<lambda>(k, a). new_window e k) zs"
  by (induction zs) (auto simp: docked_append docked_Nil docked_startup_block)

lemma win_blocks:
  "map win (map (\<lambda>(k, a). a\<lparr>win := new_window e k\<rparr>) zs) = map (\<lambda>(k, a). new_window e k) zs"
  by (induction zs) auto

lemma tray_row_acc: "foldl (\<lambda>row w. w # row) acc ws = rev ws @ acc"
  by (induction ws arbitrary: acc) simp_all

lemma tray_row_rev: "tray_row ws = rev ws"
  by (simp add: tray_row_def tray_row_acc)

text \<open>
  The creation loop on any descriptor list: its trace is the block of the last
  descriptor, then of the one before, down to the first, and the k-th window created is
  stored in the k-th descriptor from the end.
\<close>

lemma create_loop_reverse:
  "snd (create_loop e 0 (length attrs) attrs)
     = concat (map (\<lambda>(k, a). startup_block e k a) (zip [0..<length attrs] (rev attrs))) \<and>
   rev (fst (create_loop e 0 (length attrs) attrs))
     = map (\<lambda>(k, a). a\<lparr>win := new_window e k\<rparr>) (zip [0..<length attrs] (rev attrs)) \<and>
   created (snd (create_loop e 0 (length attrs) attrs))
     = map win (rev (fst (create_loop e 0 (length attrs) attrs))) \<and>
   redraws (snd (create_loop e 0 (length attrs) attrs))
     = map win (rev (fst (create_loop e 0 (length attrs) attrs))) \<and>
   ((\<forall>k < length attrs. tray_owner e k \<noteq> 0) \<longrightarrow>
      docked (snd (create_loop e 0 (length attrs) attrs))
        = map win (rev (fst (create_loop e 0 (length attrs) attrs))) \<and>
      tray_row (docked (snd (create_loop e 0 (length attrs) attrs)))
        = map win (fst (create_loop e 0 (length attrs) attrs)))"
proof -
  let ?zs = "zip [0..<length attrs] (rev attrs)"
  let ?res = "create_loop e 0 (length attrs) attrs"
  have out: "snd ?res = concat (map (\<lambda>(k, a). startup_block e k a) ?zs)"
    using create_loop_snd [of "length attrs" attrs e 0] by simp
  have fin: "rev (fst ?res) = map (\<lambda>(k, a). a\<lparr>win := new_window e k\<rparr>) ?zs"
    using create_loop_fst [of "length attrs" attrs e 0] by simp
  have wins: "map win (rev (fst ?res)) = map (\<lambda>(k, a). new_window e k) ?zs"
    unfolding fin by (rule win_blocks)
  have cr: "created (snd ?res) = map win (rev (fst ?res))"
    unfolding out wins by (rule created_blocks)
  have rd: "redraws (snd ?res) = map win (rev (fst ?res))"
    unfolding out wins by (rule redraws_blocks)
  have dk: "docked (snd ?res) = map win (rev (fst ?res))"
    if tray: "\<forall>k < length attrs. tray_owner e k \<noteq> 0"
  proof -
    have "\<forall>(k, a) \<in> set ?zs. tray_owner e k \<noteq> 0"
      using tray by (auto dest: set_zip_leftD)
    then show ?thesis unfolding out wins by (rule docked_blocks)
  qed
  have row: "tray_row (docked (snd ?res)) = map win (fst ?res)"
    if tray: "\<forall>k < length attrs. tray_owner e k \<noteq> 0"
    using dk [OF tray] by (simp add: tray_row_rev rev_map)
  from out fin cr rd dk row show ?thesis by blast
qed

section \<open>X events before notifications (C6)\<close>

lemma taken_append: "taken (xs @ ys) = taken xs @ taken ys"
  by (simp add: taken_def map_filter_def)

lemma taken_Nil: "taken [] = []"
  by (simp add: taken_def map_filter_def)

lemma taken_Cons: "taken (c # cs) = (case taken_call c of None \<Rightarrow> [] | Some ev \<Rightarrow> [ev]) @ taken cs"
  by (simp add: taken_def map_filter_def split: option.splits)

lemma taken_draw_icon: "taken (draw_icon a) = []"
  by (simp add: draw_icon_def taken_def map_filter_def)

lemma taken_read_bool: "taken (snd (read_bool fs p)) = []"
  by (simp add: read_bool_def taken_def map_filter_def Let_def split: source.splits)

lemma expose_scan_find:
  "expose_scan w attrs
     = (case find (\<lambda>a. w = win a) attrs of None \<Rightarrow> [] | Some a \<Rightarrow> draw_icon a)"
  by (induction attrs) simp_all

lemma taken_expose_scan: "taken (expose_scan w attrs) = []"
  by (induction attrs) (simp_all add: taken_Nil taken_draw_icon)

lemma taken_x11_events: "taken (x11_events attrs evs) = evs"
  by (induction evs) (simp_all add: taken_Nil taken_Cons taken_append taken_expose_scan)

lemma draw_icon_no_notify: "c \<in> set (draw_icon a) \<Longrightarrow> \<not> notify_call c"
  by (auto simp: draw_icon_def split: if_splits)

lemma expose_scan_no_notify: "c \<in> set (expose_scan w attrs) \<Longrightarrow> \<not> notify_call c"
  by (induction attrs) (auto dest: draw_icon_no_notify split: if_splits)

lemma x11_events_no_notify: "c \<in> set (x11_events attrs evs) \<Longrightarrow> \<not> notify_call c"
  by (induction evs) (auto dest: expose_scan_no_notify split: if_splits)

lemma taken_notify_scan: "taken (snd (notify_scan fs w attrs)) = []"
proof (induction attrs)
  case Nil
  then show ?case by (simp add: taken_Nil)
next
  case (Cons a as)
  show ?case
  proof (cases "wd a = w")
    case True
    then show ?thesis
      using taken_read_bool [of fs "path a"]
      by (auto simp: taken_append taken_draw_icon split: prod.splits)
  next
    case False
    then show ?thesis using Cons.IH by (auto split: prod.splits)
  qed
qed

lemma taken_inotify_records: "taken (snd (inotify_records attrs rs)) = []"
proof (induction rs arbitrary: attrs)
  case Nil
  then show ?case by (simp add: taken_Nil)
next
  case (Cons r rs)
  show ?case
    unfolding inotify_records_Cons_snd by (simp add: taken_append taken_notify_scan Cons.IH)
qed

lemma inotify_events_snd:
  "snd (inotify_events attrs batch) = Read_inotify # snd (inotify_records attrs batch)"
  by (simp add: inotify_events_def split: prod.splits)

lemma inotify_events_fst:
  "fst (inotify_events attrs batch) = fst (inotify_records attrs batch)"
  by (simp add: inotify_events_def split: prod.splits)

lemma x11_events_map:
  "x11_events attrs evs
     = concat (map (\<lambda>ev. XNextEvent ev
                 # (if ev_type ev = Expose
                    then (case find (\<lambda>a. ev_window ev = win a) attrs of
                            None \<Rightarrow> [] | Some a \<Rightarrow> draw_icon a)
                    else [])) evs)"
  by (induction evs) (simp_all add: expose_scan_find)

text \<open>
  C6: in a wake cycle where both descriptors are ready, the trace of the cycle is the
  whole drain of the X queue followed by the handling of the notification batch. The
  drain takes every pending event, in order, and makes no call of the notification
  handling; the notification handling takes no X event and works on the descriptors as
  they were before the drain. During the drain an \<^verbatim>\<open>Expose\<close> event draws the first
  descriptor whose window is the event's (nothing when there is none) and any other
  event only leaves the queue.
\<close>

theorem x11_drained_first:
  "(sel w = SelectReady True True \<longrightarrow>
      snd (snd (event_loop attrs (w # ws)))
        = Select # snd (dispatch attrs True True w)
          @ snd (snd (event_loop (fst (dispatch attrs True True w)) ws))) \<and>
   dispatch attrs True True w
     = (fst (inotify_events attrs (ino_batch w)),
        x11_events attrs (x_pending w) @ snd (inotify_events attrs (ino_batch w))) \<and>
   taken (x11_events attrs (x_pending w)) = x_pending w \<and>
   (\<forall>c \<in> set (x11_events attrs (x_pending w)). \<not> notify_call c) \<and>
   taken (snd (inotify_events attrs (ino_batch w))) = [] \<and>
   (\<exists>rest. snd (inotify_events attrs (ino_batch w)) = Read_inotify # rest) \<and>
   x11_events attrs evs
     = concat (map (\<lambda>ev. XNextEvent ev
                 # (if ev_type ev = Expose
                    then (case find (\<lambda>a. ev_window ev = win a) attrs of
                            None \<Rightarrow> [] | Some a \<Rightarrow> draw_icon a)
                    else [])) evs)"
proof (intro conjI impI ballI)
  assume "sel w = SelectReady True True"
  then show "snd (snd (event_loop attrs (w # ws)))
        = Select # snd (dispatch attrs True True w)
          @ snd (snd (event_loop (fst (dispatch attrs True True w)) ws))"
    by (simp add: event_loop_ready del: event_loop.simps)
next
  show "dispatch attrs True True w
     = (fst (inotify_events attrs (ino_batch w)),
        x11_events attrs (x_pending w) @ snd (inotify_events attrs (ino_batch w)))"
    by (simp add: dispatch_def Let_def split: prod.splits)
next
  show "taken (x11_events attrs (x_pending w)) = x_pending w"
    by (rule taken_x11_events)
next
  fix c
  assume "c \<in> set (x11_events attrs (x_pending w))"
  then show "\<not> notify_call c" by (rule x11_events_no_notify)
next
  show "taken (snd (inotify_events attrs (ino_batch w))) = []"
    by (simp add: inotify_events_snd taken_Cons taken_inotify_records)
next
  show "\<exists>rest. snd (inotify_events attrs (ino_batch w)) = Read_inotify # rest"
    by (simp add: inotify_events_snd)
next
  show "x11_events attrs evs
     = concat (map (\<lambda>ev. XNextEvent ev
                 # (if ev_type ev = Expose
                    then (case find (\<lambda>a. ev_window ev = win a) attrs of
                            None \<Rightarrow> [] | Some a \<Rightarrow> draw_icon a)
                    else [])) evs)"
    by (rule x11_events_map)
qed

theorem x11_drained_first_witness:
  "sel wake_both = SelectReady True True \<and>
   x_pending wake_both = [XEvent 12 101, XEvent 2 100] \<and>
   event_loop [attr_a, attr_b] (wake_both # [])
     = (Waiting, [attr_a\<lparr>state := 1\<rparr>, attr_b],
        Select # XNextEvent (XEvent 12 101) # draw_icon attr_b
        @ XNextEvent (XEvent 2 100) # Read_inotify # Open ''/tmp/a'' # Read # Close
        # draw_icon (attr_a\<lparr>state := 1\<rparr>) @ [Select])"
proof -
  have w: "sel wake_both = SelectReady True True"
    "x_pending wake_both = [XEvent 12 101, XEvent 2 100]"
    "ino_batch wake_both = [(\<lparr>ie_wd = 1, ie_mask = 2\<rparr>, fs_one)]"
    by (simp_all add: wake_both_def)
  have a: "win attr_a = 100" "win attr_b = 101" "wd attr_a = 1" "state attr_a = 0"
    "path attr_a = ''/tmp/a''"
    by (simp_all add: attr_a_def attr_b_def)
  have r: "read_bool fs_one ''/tmp/a'' = (1, [Open ''/tmp/a'', Read, Close])"
    by (simp add: fs_one_def fs_of_def read_bool_def atoi_def c_str_def isspace_def
        isdigit_def)
  note inst = x11_drained_first [of wake_both "[attr_a, attr_b]" "[]" "[]"]
  have x: "x11_events [attr_a, attr_b] (x_pending wake_both)
      = XNextEvent (XEvent 12 101) # draw_icon attr_b @ [XNextEvent (XEvent 2 100)]"
    by (simp add: w a Expose_def)
  have n: "inotify_events [attr_a, attr_b] (ino_batch wake_both)
      = ([attr_a\<lparr>state := 1\<rparr>, attr_b],
         Read_inotify # Open ''/tmp/a'' # Read # Close # draw_icon (attr_a\<lparr>state := 1\<rparr>))"
    by (simp add: w a r inotify_events_def)
  from inst have d: "dispatch [attr_a, attr_b] True True wake_both
     = (fst (inotify_events [attr_a, attr_b] (ino_batch wake_both)),
        x11_events [attr_a, attr_b] (x_pending wake_both)
        @ snd (inotify_events [attr_a, attr_b] (ino_batch wake_both)))"
    by blast
  from inst w have "snd (snd (event_loop [attr_a, attr_b] (wake_both # [])))
        = Select # snd (dispatch [attr_a, attr_b] True True wake_both)
          @ snd (snd (event_loop (fst (dispatch [attr_a, attr_b] True True wake_both)) []))"
    by blast
  then have s: "snd (snd (event_loop [attr_a, attr_b] (wake_both # [])))
        = Select # XNextEvent (XEvent 12 101) # draw_icon attr_b
        @ XNextEvent (XEvent 2 100) # Read_inotify # Open ''/tmp/a'' # Read # Close
        # draw_icon (attr_a\<lparr>state := 1\<rparr>) @ [Select]"
    unfolding d x n by simp
  have f: "fst (event_loop [attr_a, attr_b] (wake_both # [])) = Waiting"
    "fst (snd (event_loop [attr_a, attr_b] (wake_both # []))) = [attr_a\<lparr>state := 1\<rparr>, attr_b]"
    unfolding event_loop_ready [OF w(1)] d n by simp_all
  from w f s show ?thesis
    by (metis prod.collapse)
qed

section \<open>Redraws and state transitions (C5)\<close>

lemma notify_scan_wins: "map win (fst (notify_scan fs w attrs)) = map win attrs"
  by (induction attrs) (auto split: prod.splits)

lemma notify_scan_redraws_subset:
  "set (redraws (snd (notify_scan fs w attrs))) \<subseteq> win ` set attrs"
proof (induction attrs)
  case Nil
  then show ?case by (simp add: redraws_Nil)
next
  case (Cons a as)
  show ?case
  proof (cases "wd a = w")
    case True
    then show ?thesis
      using redraws_read_bool [of fs "path a"]
      by (auto simp: redraws_append redraws_draw_icon split: prod.splits)
  next
    case False
    then show ?thesis using Cons.IH by (auto split: prod.splits)
  qed
qed

lemma notify_scan_count:
  "distinct (map win attrs) \<Longrightarrow> i < length attrs \<Longrightarrow>
   count_list (redraws (snd (notify_scan fs w attrs))) (win (attrs ! i))
     = (if state (fst (notify_scan fs w attrs) ! i) = state (attrs ! i) then 0 else 1)"
proof (induction attrs arbitrary: i)
  case Nil
  then show ?case by simp
next
  case (Cons a as)
  from Cons.prems have da: "win a \<notin> win ` set as" and das: "distinct (map win as)"
    by simp_all
  show ?case
  proof (cases "wd a = w")
    case True
    show ?thesis
    proof (cases i)
      case 0
      with True show ?thesis
        using redraws_read_bool [of fs "path a"]
        by (auto simp: redraws_append redraws_draw_icon split: prod.splits)
    next
      case (Suc j)
      with Cons.prems have "j < length as" by simp
      then have "win (as ! j) \<in> win ` set as" by simp
      with da have "win (as ! j) \<noteq> win a" by metis
      with True Suc show ?thesis
        using redraws_read_bool [of fs "path a"]
        by (auto simp: redraws_append redraws_draw_icon split: prod.splits)
    qed
  next
    case False
    show ?thesis
    proof (cases i)
      case 0
      from da notify_scan_redraws_subset [of fs w as]
      have "win a \<notin> set (redraws (snd (notify_scan fs w as)))" by blast
      then have "count_list (redraws (snd (notify_scan fs w as))) (win a) = 0"
        by (simp add: count_list_0_iff)
      with False 0 show ?thesis by (auto split: prod.splits)
    next
      case (Suc j)
      with Cons.prems have "j < length as" by simp
      from Cons.IH [OF das this] False Suc show ?thesis by (auto split: prod.splits)
    qed
  qed
qed

lemma event_loop_one_at_a_time_Cons:
  "event_loop attrs (one_at_a_time (r # rs))
     = (fst (event_loop (fst (notify_scan (snd r) (ie_wd (fst r)) attrs)) (one_at_a_time rs)),
        fst (snd (event_loop (fst (notify_scan (snd r) (ie_wd (fst r)) attrs)) (one_at_a_time rs))),
        Select # Read_inotify # snd (notify_scan (snd r) (ie_wd (fst r)) attrs)
        @ snd (snd (event_loop (fst (notify_scan (snd r) (ie_wd (fst r)) attrs))
                 (one_at_a_time rs))))"
proof -
  let ?w = "\<lparr>sel = SelectReady False True, x_pending = [], ino_batch = [r]\<rparr>"
  have ow: "one_at_a_time (r # rs) = ?w # one_at_a_time rs"
    by (simp add: one_at_a_time_def)
  have s: "sel ?w = SelectReady False True" by simp
  have df: "fst (dispatch attrs False True ?w) = fst (notify_scan (snd r) (ie_wd (fst r)) attrs)"
    by (simp add: dispatch_fst inotify_records_Cons_fst del: inotify_records.simps(2))
  have ds: "snd (dispatch attrs False True ?w)
      = Read_inotify # snd (notify_scan (snd r) (ie_wd (fst r)) attrs)"
    by (simp add: dispatch_snd inotify_records_Cons_snd del: inotify_records.simps(2))
  show ?thesis unfolding ow event_loop_ready [OF s] df ds by simp
qed

lemma event_loop_one_at_a_time_Nil: "event_loop attrs (one_at_a_time []) = (Waiting, attrs, [Select])"
  by (simp add: one_at_a_time_def)

lemma redraws_count_transitions:
  "distinct (map win attrs) \<Longrightarrow> i < length attrs \<Longrightarrow>
   count_list (redraws (snd (snd (event_loop attrs (one_at_a_time rs))))) (win (attrs ! i))
     = transitions (state (attrs ! i)) (cached_states i attrs rs)"
proof (induction rs arbitrary: attrs)
  case Nil
  then show ?case by (simp add: event_loop_one_at_a_time_Nil redraws_Cons redraws_Nil)
next
  case (Cons r rs)
  let ?mid = "fst (notify_scan (snd r) (ie_wd (fst r)) attrs)"
  have wins: "map win ?mid = map win attrs" by (rule notify_scan_wins)
  have len: "length ?mid = length attrs" by (rule notify_scan_length)
  have d: "distinct (map win ?mid)" using Cons.prems(1) by (simp only: wins)
  have i: "i < length ?mid" using Cons.prems(2) by (simp only: len)
  have wi: "win (?mid ! i) = win (attrs ! i)"
    using arg_cong [OF wins, of "\<lambda>xs. xs ! i"] Cons.prems(2) len by simp
  have ih: "count_list (redraws (snd (snd (event_loop ?mid (one_at_a_time rs))))) (win (attrs ! i))
      = transitions (state (?mid ! i)) (cached_states i ?mid rs)"
    using Cons.IH [OF d i] by (simp only: wi)
  have st: "count_list (redraws (snd (notify_scan (snd r) (ie_wd (fst r)) attrs))) (win (attrs ! i))
      = (if state (?mid ! i) = state (attrs ! i) then 0 else 1)"
    using Cons.prems by (rule notify_scan_count)
  show ?case
    unfolding event_loop_one_at_a_time_Cons
    by (simp add: redraws_Cons redraws_append ih st)
qed

lemma draw_icon_nonzero:
  "state a \<noteq> 0 \<Longrightarrow>
   draw_icon a
     = [XCreateGC (win a), XSetForeground (bg_active a), XFillRectangle (win a) 0 0 24 24,
        XSetForeground (fg a), XDrawString (win a) 3 16 (label a), XFreeGC, XSync]"
  by (simp add: draw_icon_def ICON_SZ_def)

lemma draw_icon_zero:
  "state a = 0 \<Longrightarrow>
   draw_icon a
     = [XCreateGC (win a), XSetForeground (bg_inactive a), XFillRectangle (win a) 0 0 24 24,
        XFreeGC, XSync]"
  by (simp add: draw_icon_def ICON_SZ_def)

text \<open>
  C5: when notification records are delivered one at a time, the number of redraws of a
  descriptor's window in the trace of the event loop is the number of changes of its
  cached state (windows being distinct, as the X server makes them); a record whose
  re-read gives the cached value draws nothing. A source that goes to 1 and then to 0 by
  two records, the cached state not being 1 before, gives exactly two redraws of the
  descriptor: the active rendering, then the inactive one.
\<close>

theorem redraws_are_transitions:
  "(distinct (map win attrs) \<and> i < length attrs \<longrightarrow>
      count_list (redraws (snd (snd (event_loop attrs (one_at_a_time rs))))) (win (attrs ! i))
        = transitions (state (attrs ! i)) (cached_states i attrs rs)) \<and>
   ((\<forall>b \<in> set pre. wd b \<noteq> w) \<and> wd a = w \<and> fst (read_bool fs (path a)) = state a \<longrightarrow>
      redraws (snd (notify_scan fs w (pre @ a # post))) = []) \<and>
   ((\<forall>b \<in> set pre. wd b \<noteq> w) \<and> wd a = w \<and> ie_wd ie1 = w \<and> ie_wd ie2 = w \<and>
    state a \<noteq> 1 \<and> fst (read_bool fs1 (path a)) = 1 \<and> fst (read_bool fs2 (path a)) = 0 \<longrightarrow>
      event_loop (pre @ a # post) (one_at_a_time [(ie1, fs1), (ie2, fs2)])
        = (Waiting, pre @ a\<lparr>state := 0\<rparr> # post,
           [Select, Read_inotify] @ snd (read_bool fs1 (path a))
           @ [XCreateGC (win a), XSetForeground (bg_active a),
              XFillRectangle (win a) 0 0 24 24, XSetForeground (fg a),
              XDrawString (win a) 3 16 (label a), XFreeGC, XSync]
           @ [Select, Read_inotify] @ snd (read_bool fs2 (path a))
           @ [XCreateGC (win a), XSetForeground (bg_inactive a),
              XFillRectangle (win a) 0 0 24 24, XFreeGC, XSync]
           @ [Select]) \<and>
      redraws (snd (snd (event_loop (pre @ a # post) (one_at_a_time [(ie1, fs1), (ie2, fs2)]))))
        = [win a, win a])"
proof (intro conjI impI)
  assume "distinct (map win attrs) \<and> i < length attrs"
  then show "count_list (redraws (snd (snd (event_loop attrs (one_at_a_time rs)))))
      (win (attrs ! i)) = transitions (state (attrs ! i)) (cached_states i attrs rs)"
    by (simp add: redraws_count_transitions)
next
  assume "(\<forall>b \<in> set pre. wd b \<noteq> w) \<and> wd a = w \<and> fst (read_bool fs (path a)) = state a"
  then show "redraws (snd (notify_scan fs w (pre @ a # post))) = []"
    by (simp add: notify_scan_owner redraws_read_bool)
next
  assume h: "(\<forall>b \<in> set pre. wd b \<noteq> w) \<and> wd a = w \<and> ie_wd ie1 = w \<and> ie_wd ie2 = w \<and>
    state a \<noteq> 1 \<and> fst (read_bool fs1 (path a)) = 1 \<and> fst (read_bool fs2 (path a)) = 0"
  have s1: "notify_scan fs1 w (pre @ a # post)
      = (pre @ a\<lparr>state := 1\<rparr> # post, snd (read_bool fs1 (path a)) @ draw_icon (a\<lparr>state := 1\<rparr>))"
    using h by (simp add: notify_scan_owner)
  have s2: "notify_scan fs2 w (pre @ a\<lparr>state := 1\<rparr> # post)
      = (pre @ a\<lparr>state := 0\<rparr> # post, snd (read_bool fs2 (path a)) @ draw_icon (a\<lparr>state := 0\<rparr>))"
    using h by (simp add: notify_scan_owner)
  have d1: "draw_icon (a\<lparr>state := 1\<rparr>)
      = [XCreateGC (win a), XSetForeground (bg_active a), XFillRectangle (win a) 0 0 24 24,
         XSetForeground (fg a), XDrawString (win a) 3 16 (label a), XFreeGC, XSync]"
    using draw_icon_nonzero [of "a\<lparr>state := 1\<rparr>"] by simp
  have d0: "draw_icon (a\<lparr>state := 0\<rparr>)
      = [XCreateGC (win a), XSetForeground (bg_inactive a), XFillRectangle (win a) 0 0 24 24,
         XFreeGC, XSync]"
    using draw_icon_zero [of "a\<lparr>state := 0\<rparr>"] by simp
  show run: "event_loop (pre @ a # post) (one_at_a_time [(ie1, fs1), (ie2, fs2)])
        = (Waiting, pre @ a\<lparr>state := 0\<rparr> # post,
           [Select, Read_inotify] @ snd (read_bool fs1 (path a))
           @ [XCreateGC (win a), XSetForeground (bg_active a),
              XFillRectangle (win a) 0 0 24 24, XSetForeground (fg a),
              XDrawString (win a) 3 16 (label a), XFreeGC, XSync]
           @ [Select, Read_inotify] @ snd (read_bool fs2 (path a))
           @ [XCreateGC (win a), XSetForeground (bg_inactive a),
              XFillRectangle (win a) 0 0 24 24, XFreeGC, XSync]
           @ [Select])"
    unfolding event_loop_one_at_a_time_Cons event_loop_one_at_a_time_Nil
    using h by (simp add: s1 s2 d1 d0)
  show "redraws (snd (snd (event_loop (pre @ a # post) (one_at_a_time [(ie1, fs1), (ie2, fs2)]))))
        = [win a, win a]"
    unfolding run
    by (simp add: redraws_Cons redraws_append redraws_read_bool redraws_Nil)
qed

theorem redraws_are_transitions_witness:
  "distinct (map win [attr_b, attr_a]) \<and>
   cached_states 1 [attr_b, attr_a] [rec_one, rec_one, rec_zero, rec_zero] = [1, 1, 0, 0] \<and>
   count_list
     (redraws (snd (snd (event_loop [attr_b, attr_a]
        (one_at_a_time [rec_one, rec_one, rec_zero, rec_zero])))))
     (win ([attr_b, attr_a] ! 1)) = 2 \<and>
   wd attr_b \<noteq> 1 \<and> wd attr_a = 1 \<and> state attr_a \<noteq> 1 \<and>
   redraws (snd (snd (event_loop ([attr_b] @ attr_a # [])
      (one_at_a_time [(\<lparr>ie_wd = 1, ie_mask = 2\<rparr>, fs_one), (\<lparr>ie_wd = 1, ie_mask = 2\<rparr>, fs_zero)]))))
     = [100, 100]"
proof -
  have a: "win attr_a = 100" "win attr_b = 101" "wd attr_a = 1" "wd attr_b = 2"
    "state attr_a = 0" "path attr_a = ''/tmp/a''" "wd attr_b \<noteq> 1" "state attr_a \<noteq> 1"
    "\<forall>b \<in> set [attr_b]. wd b \<noteq> 1"
    by (simp_all add: attr_a_def attr_b_def)
  have r1: "read_bool fs_one ''/tmp/a'' = (1, [Open ''/tmp/a'', Read, Close])"
    by (simp add: fs_one_def fs_of_def read_bool_def atoi_def c_str_def isspace_def
        isdigit_def)
  have r0: "read_bool fs_zero ''/tmp/a'' = (0, [Open ''/tmp/a'', Read, Close])"
    by (simp add: fs_zero_def fs_of_def read_bool_def atoi_def c_str_def isspace_def
        isdigit_def)
  have d: "distinct (map win [attr_b, attr_a])" by (simp add: a)
  have cs: "cached_states 1 [attr_b, attr_a] [rec_one, rec_one, rec_zero, rec_zero] = [1, 1, 0, 0]"
    by (simp add: rec_one_def rec_zero_def a r1 r0)
  note inst1 = redraws_are_transitions
    [of "[attr_b, attr_a]" 1 "[rec_one, rec_one, rec_zero, rec_zero]" "[]" 0 attr_a fs_none "[]"
       "\<lparr>ie_wd = 1, ie_mask = 2\<rparr>" "\<lparr>ie_wd = 1, ie_mask = 2\<rparr>" fs_none fs_none]
  from inst1 d have "count_list
     (redraws (snd (snd (event_loop [attr_b, attr_a]
        (one_at_a_time [rec_one, rec_one, rec_zero, rec_zero])))))
     (win ([attr_b, attr_a] ! 1))
     = transitions (state ([attr_b, attr_a] ! 1))
         (cached_states 1 [attr_b, attr_a] [rec_one, rec_one, rec_zero, rec_zero])"
    by simp
  then have c: "count_list
     (redraws (snd (snd (event_loop [attr_b, attr_a]
        (one_at_a_time [rec_one, rec_one, rec_zero, rec_zero])))))
     (win ([attr_b, attr_a] ! 1)) = 2"
    unfolding cs by (simp add: a)
  note inst2 = redraws_are_transitions
    [of "[]" 0 "[]" "[attr_b]" 1 attr_a fs_none "[]"
       "\<lparr>ie_wd = 1, ie_mask = 2\<rparr>" "\<lparr>ie_wd = 1, ie_mask = 2\<rparr>" fs_one fs_zero]
  have h2: "(\<forall>b \<in> set [attr_b]. wd b \<noteq> 1) \<and> wd attr_a = 1 \<and>
      ie_wd \<lparr>ie_wd = 1, ie_mask = 2\<rparr> = 1 \<and> ie_wd \<lparr>ie_wd = 1, ie_mask = 2\<rparr> = 1 \<and>
      state attr_a \<noteq> 1 \<and> fst (read_bool fs_one (path attr_a)) = 1 \<and>
      fst (read_bool fs_zero (path attr_a)) = 0"
    by (simp add: a r1 r0)
  from inst2 h2 have s: "redraws (snd (snd (event_loop ([attr_b] @ attr_a # [])
      (one_at_a_time [(\<lparr>ie_wd = 1, ie_mask = 2\<rparr>, fs_one), (\<lparr>ie_wd = 1, ie_mask = 2\<rparr>, fs_zero)]))))
     = [win attr_a, win attr_a]"
    by blast
  from d cs c a s show ?thesis by simp
qed

section \<open>A failed registration (C9)\<close>

lemma watch_loop_fst: "fst (watch_loop e attrs) = map (\<lambda>a. a\<lparr>wd := add_watch e (path a)\<rparr>) attrs"
  by (induction attrs) (auto split: prod.splits)

lemma watch_loop_warns:
  "a \<in> set attrs \<Longrightarrow> add_watch e (path a) < 0 \<Longrightarrow>
   Fprintf_stderr
     (''warning: cannot watch '' @ path a @ '' ('' @ strerror_errno e (path a) @ '')''
      @ [CHR 0x0A])
   \<in> set (snd (watch_loop e attrs))"
  by (induction attrs) (auto split: prod.splits)

lemma notify_scan_other_wd:
  "i < length attrs \<Longrightarrow> wd (attrs ! i) \<noteq> w \<Longrightarrow> fst (notify_scan fs w attrs) ! i = attrs ! i"
proof (induction attrs arbitrary: i)
  case Nil
  then show ?case by simp
next
  case (Cons a as)
  show ?case
  proof (cases i)
    case 0
    with Cons.prems show ?thesis by (auto split: prod.splits)
  next
    case (Suc j)
    with Cons.prems have "j < length as" "wd (as ! j) \<noteq> w" by simp_all
    from Cons.IH [OF this] Suc show ?thesis by (auto split: prod.splits)
  qed
qed

text \<open>
  C9 says that a descriptor whose registration failed is never re-read afterwards. The
  registration loop stores the \<open>-1\<close> returned by \<^verbatim>\<open>inotify_add_watch\<close> in \<open>wd\<close>, prints
  the warning and goes on; the event loop matches records by \<^verbatim>\<open>attrs[i].wd == ie->wd\<close>
  without looking at the mask. The record the kernel sends when its queue overflows has
  \<open>wd = -1\<close>: in the run below it is dispatched to the descriptor of \<open>/tmp/b\<close>, whose
  registration failed, the source is opened and read again, the cached state goes from 0
  to 1 and the icon is redrawn.
\<close>

theorem failed_watch_reread_on_overflow:
  "main env_overflow ''prog''
     [''/tmp/a:FOO:0x000000:0xFF0000:0x202020'', ''/tmp/b:BAR:0x000000:0xFF0000:0x202020''] =
     (Waiting,
      [\<lparr>path = ''/tmp/a'', label = ''FOO'', fg = 0, bg_active = 0xFF0000,
        bg_inactive = 0x202020, state = 0, wd = 1, win = 101\<rparr>,
       \<lparr>path = ''/tmp/b'', label = ''BAR'', fg = 0, bg_active = 0xFF0000,
        bg_inactive = 0x202020, state = 1, wd = - 1, win = 100\<rparr>],
      [Open ''/tmp/a'', Read, Close, Open ''/tmp/b'', Read, Close, XOpenDisplay,
       XInternAtom ''_XEMBED_INFO'', XInternAtom ''_NET_SYSTEM_TRAY_OPCODE'',
       XCreateSimpleWindow 100, XChangeProperty 100, XSelectInput 100, XMapWindow 100,
       XGetSelectionOwner, XSendEvent 7 100, XCreateGC 100, XSetForeground 0x202020,
       XFillRectangle 100 0 0 24 24, XFreeGC, XSync,
       XCreateSimpleWindow 101, XChangeProperty 101, XSelectInput 101, XMapWindow 101,
       XGetSelectionOwner, XSendEvent 7 101, XCreateGC 101, XSetForeground 0x202020,
       XFillRectangle 101 0 0 24 24, XFreeGC, XSync,
       Inotify_init1, Inotify_add_watch ''/tmp/a'', Inotify_add_watch ''/tmp/b'',
       Fprintf_stderr (''warning: cannot watch /tmp/b (No space left on device)'' @ [CHR 0x0A]),
       Select, Read_inotify, Open ''/tmp/b'', Read, Close, XCreateGC 100,
       XSetForeground 0xFF0000, XFillRectangle 100 0 0 24 24, XSetForeground 0,
       XDrawString 100 3 16 ''BAR'', XFreeGC, XSync, Select])"
  by (simp add: main_def env_overflow_def wake_overflow_def parse_attr_def strsep1_def
      strsep_def parse_color_def strtoul_lit_def fs_both_zero_def fs_b_one_def fs_of_def
      read_bool_def atoi_def c_str_def isspace_def isdigit_def create_window_def
      dock_to_tray_def draw_icon_def ICON_SZ_def dispatch_def inotify_events_def)

section \<open>Creation in reverse order of the arguments (C4)\<close>

lemma no_window_created: "\<forall>c \<in> set out. \<not> window_call c \<Longrightarrow> created out = []"
proof (induction out)
  case Nil
  then show ?case by (simp add: created_Nil)
next
  case (Cons c out)
  then have "created_call c = None" by (cases c) simp_all
  with Cons show ?case by (simp add: created_def map_filter_def)
qed

lemma no_window_docked: "\<forall>c \<in> set out. \<not> window_call c \<Longrightarrow> docked out = []"
proof (induction out)
  case Nil
  then show ?case by (simp add: docked_Nil)
next
  case (Cons c out)
  then have "docked_call c = None" by (cases c) simp_all
  with Cons show ?case by (simp add: docked_def map_filter_def)
qed

lemma read_bool_no_window: "c \<in> set (snd (read_bool fs p)) \<Longrightarrow> \<not> window_call c"
  by (auto simp: read_bool_def Let_def split: source.splits)

lemma draw_icon_no_window: "c \<in> set (draw_icon a) \<Longrightarrow> \<not> window_call c"
  by (auto simp: draw_icon_def split: if_splits)

lemma expose_scan_no_window: "c \<in> set (expose_scan w attrs) \<Longrightarrow> \<not> window_call c"
  by (induction attrs) (auto dest: draw_icon_no_window split: if_splits)

lemma x11_events_no_window: "c \<in> set (x11_events attrs evs) \<Longrightarrow> \<not> window_call c"
  by (induction evs) (auto dest: expose_scan_no_window split: if_splits)

lemma notify_scan_no_window: "c \<in> set (snd (notify_scan fs w attrs)) \<Longrightarrow> \<not> window_call c"
proof (induction attrs)
  case Nil
  then show ?case by simp
next
  case (Cons a as)
  show ?case
  proof (cases "wd a = w")
    case True
    with Cons.prems show ?thesis
      using read_bool_no_window [of c fs "path a"]
      by (auto dest: draw_icon_no_window split: prod.splits if_splits)
  next
    case False
    with Cons show ?thesis by (auto split: prod.splits)
  qed
qed

lemma inotify_records_no_window:
  "c \<in> set (snd (inotify_records attrs rs)) \<Longrightarrow> \<not> window_call c"
proof (induction rs arbitrary: attrs)
  case Nil
  then show ?case by simp
next
  case (Cons r rs)
  from Cons.prems show ?case
    unfolding inotify_records_Cons_snd
    by (auto dest: notify_scan_no_window Cons.IH)
qed

lemma dispatch_no_window: "c \<in> set (snd (dispatch attrs xr ir w)) \<Longrightarrow> \<not> window_call c"
  unfolding dispatch_snd
  by (auto dest: x11_events_no_window inotify_records_no_window split: if_splits)

lemma event_loop_no_window: "c \<in> set (snd (snd (event_loop attrs ws))) \<Longrightarrow> \<not> window_call c"
proof (induction ws arbitrary: attrs)
  case Nil
  then show ?case by simp
next
  case (Cons w ws)
  show ?case
  proof (cases "sel w")
    case (SelectErr err)
    show ?thesis
    proof (cases "err = EINTR")
      case True
      with SelectErr have "sel w = SelectErr EINTR" by simp
      with Cons show ?thesis by (auto simp: event_loop_eintr simp del: event_loop.simps)
    next
      case False
      with SelectErr Cons.prems show ?thesis by (auto simp: event_loop_fatal simp del: event_loop.simps)
    qed
  next
    case (SelectReady xr ir)
    with Cons show ?thesis
      by (auto simp: event_loop_ready simp del: event_loop.simps dest: dispatch_no_window)
  qed
qed

lemma watch_loop_no_window: "c \<in> set (snd (watch_loop e attrs)) \<Longrightarrow> \<not> window_call c"
  by (induction attrs) (auto split: prod.splits if_splits)

lemma notify_scan_keeps:
  assumes "\<And>a v. f (a\<lparr>state := v\<rparr>) = f a"
  shows "map f (fst (notify_scan fs w attrs)) = map f attrs"
  by (induction attrs) (auto simp: assms split: prod.splits)

lemma inotify_records_keeps:
  assumes "\<And>a v. f (a\<lparr>state := v\<rparr>) = f a"
  shows "map f (fst (inotify_records attrs rs)) = map f attrs"
proof (induction rs arbitrary: attrs)
  case Nil
  then show ?case by simp
next
  case (Cons r rs)
  show ?case unfolding inotify_records_Cons_fst
    by (simp add: Cons.IH notify_scan_keeps [of f, OF assms])
qed

lemma event_loop_keeps:
  assumes "\<And>a v. f (a\<lparr>state := v\<rparr>) = f a"
  shows "map f (fst (snd (event_loop attrs ws))) = map f attrs"
proof (induction ws arbitrary: attrs)
  case Nil
  then show ?case by simp
next
  case (Cons w ws)
  show ?case
  proof (cases "sel w")
    case (SelectErr err)
    then show ?thesis
      by (cases "err = EINTR")
        (simp_all add: event_loop_eintr event_loop_fatal Cons.IH del: event_loop.simps)
  next
    case (SelectReady xr ir)
    then show ?thesis
      by (simp add: event_loop_ready Cons.IH dispatch_fst inotify_records_keeps [of f, OF assms]
          del: event_loop.simps)
  qed
qed

lemma parse_attr_snd:
  "snd (parse_attr e arg) = snd (read_bool (fs0 e) (take 255 (fst (strsep1 arg))))"
  by (simp add: parse_attr_def split: prod.splits)

lemma parse_attr_path: "path (fst (parse_attr e arg)) = take 255 (fst (strsep1 arg))"
  by (simp add: parse_attr_def split: prod.splits)

lemma parse_no_window:
  "c \<in> set (concat (map snd (map (parse_attr e) args))) \<Longrightarrow> \<not> window_call c"
  by (induction args) (auto simp: parse_attr_snd dest: read_bool_no_window)

lemma redraws_parse: "redraws (concat (map snd (map (parse_attr e) args))) = []"
  by (induction args) (simp_all add: redraws_Nil redraws_append parse_attr_snd redraws_read_bool)

lemma path_blocks:
  "map path (map (\<lambda>(k, a). a\<lparr>win := new_window e k\<rparr>) zs) = map path (map snd zs)"
  by (induction zs) auto

lemma win_blocks_fst:
  "map win (map (\<lambda>(k, a). a\<lparr>win := new_window e k\<rparr>) zs) = map (new_window e) (map fst zs)"
  by (induction zs) auto

lemma main_created:
  assumes "args \<noteq> []" and "display_ok e"
  shows "\<exists>post.
      snd (snd (main e prog args))
        = (concat (map snd (map (parse_attr e) args))
           @ [XOpenDisplay, XInternAtom ''_XEMBED_INFO'', XInternAtom ''_NET_SYSTEM_TRAY_OPCODE''])
          @ snd (create_loop e 0 (length args) (map fst (map (parse_attr e) args)))
          @ post \<and>
      (\<forall>c \<in> set post. \<not> window_call c) \<and>
      map win (fst (snd (main e prog args)))
        = map win (fst (create_loop e 0 (length args) (map fst (map (parse_attr e) args)))) \<and>
      map path (fst (snd (main e prog args)))
        = map path (fst (create_loop e 0 (length args) (map fst (map (parse_attr e) args))))"
proof (cases "ino_fd e < 0")
  case True
  have "main e prog args
      = (Exit 1, fst (create_loop e 0 (length args) (map fst (map (parse_attr e) args))),
         (concat (map snd (map (parse_attr e) args))
           @ [XOpenDisplay, XInternAtom ''_XEMBED_INFO'', XInternAtom ''_NET_SYSTEM_TRAY_OPCODE''])
          @ snd (create_loop e 0 (length args) (map fst (map (parse_attr e) args)))
          @ [Inotify_init1, Perror ''inotify_init1''])"
    using assms True argc_ok [OF assms(1)]
    by (simp add: main_def Let_def split: prod.splits del: create_loop.simps)
  then show ?thesis by simp
next
  case False
  then have ok: "0 \<le> ino_fd e" by simp
  let ?C = "create_loop e 0 (length args) (map fst (map (parse_attr e) args))"
  let ?W = "watch_loop e (fst ?C)"
  let ?E = "event_loop (fst ?W) (wakes e)"
  let ?post = "[Inotify_init1] @ snd ?W @ snd (snd ?E)"
  have tr: "snd (snd (main e prog args))
        = (concat (map snd (map (parse_attr e) args))
           @ [XOpenDisplay, XInternAtom ''_XEMBED_INFO'', XInternAtom ''_NET_SYSTEM_TRAY_OPCODE''])
          @ snd ?C @ ?post"
    unfolding main_started [OF assms ok] by simp
  have nw: "\<forall>c \<in> set ?post. \<not> window_call c"
    by (auto dest: watch_loop_no_window event_loop_no_window)
  have fin: "fst (snd (main e prog args)) = fst (snd ?E)"
    unfolding main_started [OF assms ok] by simp
  have w: "map win (fst (snd ?E)) = map win (fst ?C)"
    by (simp add: event_loop_keeps [of win] watch_loop_fst comp_def)
  have p: "map path (fst (snd ?E)) = map path (fst ?C)"
    by (simp add: event_loop_keeps [of path] watch_loop_fst comp_def)
  from tr nw w p show ?thesis unfolding fin by blast
qed

text \<open>
  C4: \<open>main\<close> runs the creation loop on the descriptors parsed from the command line, from
  the last to the first. After the parsing and the opening of the display, its trace is
  the creation-and-paint block of the last argument's descriptor, then of the one before,
  down to the first, and no window is created or docked later. The descriptors stay in
  argument order, and the k-th window created is the one of the k-th argument from the
  end: windows are created, first painted and (with a tray present) docked in reverse
  argument order, and a tray that puts each newly docked window at the left end shows
  them in argument order.
\<close>

theorem reverse_creation_order:
  "args \<noteq> [] \<and> display_ok e \<longrightarrow>
     (\<exists>post.
        snd (snd (main e prog args))
          = concat (map snd (map (parse_attr e) args))
            @ [XOpenDisplay, XInternAtom ''_XEMBED_INFO'', XInternAtom ''_NET_SYSTEM_TRAY_OPCODE'']
            @ concat (map (\<lambda>(k, a). startup_block e k a)
                (zip [0..<length args] (rev (map fst (map (parse_attr e) args)))))
            @ post \<and>
        created post = [] \<and> docked post = []) \<and>
     map path (fst (snd (main e prog args))) = map (\<lambda>arg. take 255 (fst (strsep1 arg))) args \<and>
     map win (fst (snd (main e prog args))) = map (new_window e) (rev [0..<length args]) \<and>
     created (snd (snd (main e prog args))) = map win (rev (fst (snd (main e prog args)))) \<and>
     take (length args) (redraws (snd (snd (main e prog args))))
       = map win (rev (fst (snd (main e prog args)))) \<and>
     ((\<forall>k < length args. tray_owner e k \<noteq> 0) \<longrightarrow>
        docked (snd (snd (main e prog args))) = map win (rev (fst (snd (main e prog args)))) \<and>
        tray_row (docked (snd (snd (main e prog args)))) = map win (fst (snd (main e prog args))))"
proof (intro impI)
  assume h: "args \<noteq> [] \<and> display_ok e"
  let ?A = "map fst (map (parse_attr e) args)"
  let ?C = "create_loop e 0 (length args) ?A"
  let ?P = "concat (map snd (map (parse_attr e) args))
      @ [XOpenDisplay, XInternAtom ''_XEMBED_INFO'', XInternAtom ''_NET_SYSTEM_TRAY_OPCODE'']"
  let ?zs = "zip [0..<length args] (rev ?A)"
  let ?fin = "fst (snd (main e prog args))"
  let ?out = "snd (snd (main e prog args))"
  have lenA: "length ?A = length args" by simp
  note cl = create_loop_reverse [of e ?A, unfolded lenA]
  from main_created [of args e prog] h obtain post where
    tr: "?out = ?P @ snd ?C @ post" and
    nw: "\<forall>c \<in> set post. \<not> window_call c" and
    w: "map win ?fin = map win (fst ?C)" and
    p: "map path ?fin = map path (fst ?C)"
    by blast
  have cpost: "created post = []" "docked post = []"
    using nw by (simp_all add: no_window_created no_window_docked)
  define P where "P = ?P"
  have trP: "?out = P @ snd ?C @ post"
    unfolding P_def by (rule tr)
  have nwP: "\<forall>c \<in> set P. \<not> window_call c"
  proof
    fix c
    assume "c \<in> set P"
    then show "\<not> window_call c"
      unfolding P_def using parse_no_window [of c e args] by auto
  qed
  have cP: "created P = []" "docked P = []"
    using nwP by (simp_all only: no_window_created no_window_docked)
  have rP: "redraws P = []"
    unfolding P_def
    by (simp add: redraws_append redraws_parse redraws_Cons redraws_Nil del: map_map)
  have blocks: "snd ?C = concat (map (\<lambda>(k, a). startup_block e k a) ?zs)"
    using cl by blast
  have revC: "rev (fst ?C) = map (\<lambda>(k, a). a\<lparr>win := new_window e k\<rparr>) ?zs"
    using cl by blast
  have lenzs: "length ?zs = length args" by simp
  have lenC: "length (fst ?C) = length args"
    using arg_cong [OF revC, of length] by (simp only: length_rev length_map lenzs)
  have rw: "map win (rev ?fin) = map win (rev (fst ?C))"
    using arg_cong [OF w, of rev] by (simp only: rev_map)
  have pathC: "map path (rev (fst ?C)) = map path (rev ?A)"
  proof -
    have "map path (map (\<lambda>(k, a). a\<lparr>win := new_window e k\<rparr>) ?zs) = map path (map snd ?zs)"
      by (rule path_blocks)
    also have "map snd ?zs = rev ?A" by simp
    finally show ?thesis unfolding revC .
  qed
  have winC: "map win (rev (fst ?C)) = map (new_window e) [0..<length args]"
  proof -
    have "map win (map (\<lambda>(k, a). a\<lparr>win := new_window e k\<rparr>) ?zs) = map (new_window e) (map fst ?zs)"
      by (rule win_blocks_fst)
    also have "map fst ?zs = [0..<length args]" by simp
    finally show ?thesis unfolding revC .
  qed
  have c1: "\<exists>post. ?out = concat (map snd (map (parse_attr e) args))
            @ [XOpenDisplay, XInternAtom ''_XEMBED_INFO'', XInternAtom ''_NET_SYSTEM_TRAY_OPCODE'']
            @ concat (map (\<lambda>(k, a). startup_block e k a) ?zs) @ post \<and>
        created post = [] \<and> docked post = []"
    using tr cpost unfolding blocks by auto
  have c2: "map path ?fin = map (\<lambda>arg. take 255 (fst (strsep1 arg))) args"
  proof -
    have "map path (fst ?C) = map path ?A"
      using arg_cong [OF pathC, of rev] by (simp add: rev_map)
    then show ?thesis unfolding p by (simp add: parse_attr_path comp_def)
  qed
  have c3: "map win ?fin = map (new_window e) (rev [0..<length args])"
    using arg_cong [OF winC, of rev] unfolding w by (simp add: rev_map)
  have crC: "created (snd ?C) = map win (rev (fst ?C))"
    using cl by blast
  have rdC: "redraws (snd ?C) = map win (rev (fst ?C))"
    using cl by blast
  have c4: "created ?out = map win (rev ?fin)"
    by (simp only: trP created_append cP cpost crC rw append_Nil append_Nil2)
  have rd: "redraws ?out = map win (rev ?fin) @ redraws post"
    by (simp only: trP redraws_append rP rdC rw append_Nil)
  have lenw: "length (map win (rev ?fin)) = length args"
    by (simp only: rw length_map length_rev lenC)
  have c5: "take (length args) (redraws ?out) = map win (rev ?fin)"
    unfolding rd using lenw by simp
  have c6: "docked ?out = map win (rev ?fin) \<and> tray_row (docked ?out) = map win ?fin"
    if tray: "\<forall>k < length args. tray_owner e k \<noteq> 0"
  proof -
    from cl tray have d: "docked (snd ?C) = map win (rev (fst ?C))" by blast
    have dk: "docked ?out = map win (rev ?fin)"
      by (simp only: trP docked_append cP cpost d rw append_Nil append_Nil2)
    have "tray_row (docked ?out) = rev (map win (rev ?fin))"
      by (simp only: dk tray_row_rev)
    also have "\<dots> = map win ?fin" by (simp only: rev_map rev_rev_ident)
    finally show ?thesis using dk by blast
  qed
  from c1 c2 c3 c4 c5 c6
  show "(\<exists>post.
        snd (snd (main e prog args))
          = concat (map snd (map (parse_attr e) args))
            @ [XOpenDisplay, XInternAtom ''_XEMBED_INFO'', XInternAtom ''_NET_SYSTEM_TRAY_OPCODE'']
            @ concat (map (\<lambda>(k, a). startup_block e k a)
                (zip [0..<length args] (rev (map fst (map (parse_attr e) args)))))
            @ post \<and>
        created post = [] \<and> docked post = []) \<and>
     map path (fst (snd (main e prog args))) = map (\<lambda>arg. take 255 (fst (strsep1 arg))) args \<and>
     map win (fst (snd (main e prog args))) = map (new_window e) (rev [0..<length args]) \<and>
     created (snd (snd (main e prog args))) = map win (rev (fst (snd (main e prog args)))) \<and>
     take (length args) (redraws (snd (snd (main e prog args))))
       = map win (rev (fst (snd (main e prog args)))) \<and>
     ((\<forall>k < length args. tray_owner e k \<noteq> 0) \<longrightarrow>
        docked (snd (snd (main e prog args))) = map win (rev (fst (snd (main e prog args)))) \<and>
        tray_row (docked (snd (snd (main e prog args)))) = map win (fst (snd (main e prog args))))"
    by blast
qed

theorem reverse_creation_order_witness:
  "args_abc \<noteq> [] \<and> display_ok env_missing \<and>
   tray_owner env_missing 0 \<noteq> 0 \<and> tray_owner env_missing 1 \<noteq> 0 \<and>
   tray_owner env_missing 2 \<noteq> 0 \<and>
   map path (fst (snd (main env_missing ''prog'' args_abc))) = [''/tmp/a'', ''/tmp/b'', ''/tmp/c''] \<and>
   map win (fst (snd (main env_missing ''prog'' args_abc))) = [102, 101, 100] \<and>
   created (snd (snd (main env_missing ''prog'' args_abc))) = [100, 101, 102] \<and>
   take 3 (redraws (snd (snd (main env_missing ''prog'' args_abc)))) = [100, 101, 102] \<and>
   docked (snd (snd (main env_missing ''prog'' args_abc))) = [100, 101, 102] \<and>
   tray_row (docked (snd (snd (main env_missing ''prog'' args_abc)))) = [102, 101, 100]"
proof -
  define fin where "fin = fst (snd (main env_missing ''prog'' args_abc))"
  define out where "out = snd (snd (main env_missing ''prog'' args_abc))"
  have len: "length args_abc = 3" by (simp add: args_abc_def)
  have h: "args_abc \<noteq> [] \<and> display_ok env_missing"
    by (simp add: args_abc_def env_missing_def)
  have tray: "\<forall>k < length args_abc. tray_owner env_missing k \<noteq> 0"
    and tray3: "tray_owner env_missing 0 \<noteq> 0" "tray_owner env_missing 1 \<noteq> 0"
      "tray_owner env_missing 2 \<noteq> 0"
    by (simp_all add: env_missing_def)
  note inst = reverse_creation_order [of args_abc env_missing "''prog''", folded fin_def out_def]
  from inst h have "map path fin = map (\<lambda>arg. take 255 (fst (strsep1 arg))) args_abc"
    by blast
  then have p: "map path fin = [''/tmp/a'', ''/tmp/b'', ''/tmp/c'']"
    by (simp add: args_abc_def strsep1_def)
  from inst h have "map win fin = map (new_window env_missing) (rev [0..<length args_abc])"
    by blast
  then have w: "map win fin = [102, 101, 100]"
    unfolding len by (simp add: env_missing_def upt_rec)
  have rw: "map win (rev fin) = [100, 101, 102]"
    using arg_cong [OF w, of rev] by (simp add: rev_map)
  from inst h have "created out = map win (rev fin)" by blast
  then have c: "created out = [100, 101, 102]" by (simp only: rw)
  from inst h have "take (length args_abc) (redraws out) = map win (rev fin)" by blast
  then have r: "take 3 (redraws out) = [100, 101, 102]" by (simp only: rw len)
  from inst h tray have "docked out = map win (rev fin)" by blast
  then have d: "docked out = [100, 101, 102]" by (simp only: rw)
  from inst h tray have "tray_row (docked out) = map win fin" by blast
  then have t: "tray_row (docked out) = [102, 101, 100]" by (simp only: w)
  from h tray3 p w c r d t show ?thesis unfolding fin_def out_def by blast
qed

section \<open>Exit code 1 (C8)\<close>








end
